theory Spec2Isabelle
  imports
    Complex_Main
    "HOL-Library.Multiset"
    "HOL-Library.Sublist"
    "HOL-Library.Char_ord"
    "HOL-Library.List_Lexorder"
begin

section \<open>Values of the host language\<close>

text \<open>
  The query builder is TypeScript, so its callbacks and field values are JavaScript values
  and its comparisons are the host's \<open>===\<close>, \<open><\<close>, \<open>>\<close>, truthiness and the key
  equality of \<open>Map\<close>. Numbers are IEEE doubles: every finite double is a rational, the
  two zeros are kept apart (\<open>Fin 0\<close> is \<open>+0\<close>), and comparison of doubles is exact, so it is
  defined here. Rounding arithmetic (\<open>+\<close>, \<open>/\<close>), the parsing of a string as a number and
  the host's sort are not defined here: they are fields of a \<open>host\<close> record that the
  operators using them take as an argument.
\<close>

datatype jsnum = NaN | NegInf | Fin rat | NegZero | PosInf

fun level :: "jsnum \<Rightarrow> int" where
  "level NegInf = -1"
| "level PosInf = 1"
| "level _ = 0"

fun magnitude :: "jsnum \<Rightarrow> rat" where
  "magnitude (Fin r) = r"
| "magnitude _ = 0"

definition num_less :: "jsnum \<Rightarrow> jsnum \<Rightarrow> bool" where
  "num_less a b =
     (a \<noteq> NaN \<and> b \<noteq> NaN \<and>
      (level a < level b \<or> (level a = level b \<and> magnitude a < magnitude b)))"

definition num_equal :: "jsnum \<Rightarrow> jsnum \<Rightarrow> bool" where
  "num_equal a b =
     (a \<noteq> NaN \<and> b \<noteq> NaN \<and> level a = level b \<and> magnitude a = magnitude b)"

text \<open>
  A value is a primitive or a plain object. An object carries its reference (objects are
  equal under \<open>===\<close> exactly when they are the same reference) and its own data
  properties in insertion order.
\<close>

datatype jsval =
    Undefined
  | Null
  | Boolean bool
  | Number jsnum
  | Str string
  | Object nat "(string \<times> jsval) list"

text \<open>
  An item of the field-based operators (\<open>select\<close>, \<open>orderBy\<close>, \<open>sum\<close>, \<open>avg\<close>, \<open>max\<close>,
  \<open>min\<close>) is a record \<open>T\<close> read at a key \<open>P extends keyof T\<close>: an object, given by its
  fields.
\<close>

type_synonym obj = "(string \<times> jsval) list"

text \<open>
  What the host computes and this theory does not define: the number a string parses to,
  the rounded sum and quotient of two doubles, and \<open>Array.prototype.sort\<close>, whose result
  on a comparison function that is not consistent is implementation-defined.
\<close>

record host =
  StringToNumber :: "string \<Rightarrow> jsnum"
  num_add :: "jsnum \<Rightarrow> jsnum \<Rightarrow> jsnum"
  num_div :: "jsnum \<Rightarrow> jsnum \<Rightarrow> jsnum"
  array_sort :: "(obj \<Rightarrow> obj \<Rightarrow> int) \<Rightarrow> obj list \<Rightarrow> obj list"

text \<open>\<open>ToBoolean\<close>: what \<open>filter\<close>, \<open>every\<close> and the conditional operator test.\<close>

fun truthy :: "jsval \<Rightarrow> bool" where
  "truthy Undefined = False"
| "truthy Null = False"
| "truthy (Boolean b) = b"
| "truthy (Number n) = (n \<noteq> NaN \<and> n \<noteq> Fin 0 \<and> n \<noteq> NegZero)"
| "truthy (Str s) = (s \<noteq> [])"
| "truthy (Object r fs) = True"

text \<open>\<open>a === b\<close>: no conversion; \<open>NaN\<close> is not equal to itself, \<open>+0 === -0\<close>.\<close>

fun strict_eq :: "jsval \<Rightarrow> jsval \<Rightarrow> bool" where
  "strict_eq Undefined Undefined = True"
| "strict_eq Null Null = True"
| "strict_eq (Boolean a) (Boolean b) = (a = b)"
| "strict_eq (Number a) (Number b) = num_equal a b"
| "strict_eq (Str a) (Str b) = (a = b)"
| "strict_eq (Object r fs) (Object r' fs') = (r = r')"
| "strict_eq _ _ = False"

text \<open>\<open>SameValueZero\<close>, the key equality of \<open>Map\<close>: as \<open>===\<close>, but \<open>NaN\<close> equals itself.\<close>

definition same_value_zero :: "jsval \<Rightarrow> jsval \<Rightarrow> bool" where
  "same_value_zero a b = (strict_eq a b \<or> (a = Number NaN \<and> b = Number NaN))"

text \<open>
  \<open>ToPrimitive\<close> of a plain object is the string \<open>[object Object]\<close>; \<open>ToNumber\<close> is
  what \<open>Number(v)\<close> computes and what \<open><\<close> applies to operands that are not both strings.
\<close>

fun ToPrimitive :: "jsval \<Rightarrow> jsval" where
  "ToPrimitive (Object r fs) = Str ''[object Object]''"
| "ToPrimitive v = v"

fun ToNumber :: "host \<Rightarrow> jsval \<Rightarrow> jsnum" where
  "ToNumber h Undefined = NaN"
| "ToNumber h Null = Fin 0"
| "ToNumber h (Boolean b) = (if b then Fin 1 else Fin 0)"
| "ToNumber h (Number n) = n"
| "ToNumber h (Str s) = StringToNumber h s"
| "ToNumber h (Object r fs) = NaN"

text \<open>
  \<open>a < b\<close>: two strings are compared code unit by code unit, everything else as numbers,
  and a comparison with \<open>NaN\<close> is false. \<open>a > b\<close> is \<open>b < a\<close>.
\<close>

definition js_lt :: "host \<Rightarrow> jsval \<Rightarrow> jsval \<Rightarrow> bool" where
  "js_lt h a b =
     (case (ToPrimitive a, ToPrimitive b) of
        (Str s, Str t) \<Rightarrow> s < t
      | (pa, pb) \<Rightarrow> num_less (ToNumber h pa) (ToNumber h pb))"

definition js_gt :: "host \<Rightarrow> jsval \<Rightarrow> jsval \<Rightarrow> bool" where
  "js_gt h a b = js_lt h b a"

text \<open>\<open>item[key]\<close> is the field's value, \<open>undefined\<close> when the object has no such field.\<close>

definition get :: "obj \<Rightarrow> string \<Rightarrow> jsval" where
  "get item k = (case map_of item k of None \<Rightarrow> Undefined | Some v \<Rightarrow> v)"

text \<open>\<open>o[key] = v\<close>: an existing property keeps its place, a new one is added last.\<close>

fun set_property :: "obj \<Rightarrow> string \<Rightarrow> jsval \<Rightarrow> obj" where
  "set_property [] k v = [(k, v)]"
| "set_property ((k', v') # fs) k v =
     (if k' = k then (k, v) # fs else (k', v') # set_property fs k v)"

text \<open>
  \<open>xs.slice(start, end)\<close> for integer arguments (the host truncates a fractional one
  first): a negative index counts from the end, both are clamped to the array, and an
  absent \<open>end\<close> is the length.
\<close>

definition slice :: "'a list \<Rightarrow> int \<Rightarrow> int option \<Rightarrow> 'a list" where
  "slice xs start fin =
     (let len = int (length xs);
          k = (if start < 0 then max (len + start) 0 else min start len);
          final = (case fin of
                     None \<Rightarrow> len
                   | Some e \<Rightarrow> if e < 0 then max (len + e) 0 else min e len)
      in take (nat (final - k)) (drop (nat k) xs))"

section \<open>The query builder\<close>

text \<open>
  An instance holds one field, \<open>items\<close>. A chain operator is a method call: it may assign
  the receiver's field and it returns a reference, which is the receiver itself or an
  instance made by \<open>new QueryBuilder(...)\<close>. A call is therefore modelled by three things:
  the receiver after the call, the instance the returned reference points to, and whether
  that reference is the receiver.
\<close>

record 'a QueryBuilder =
  items :: "'a list"

record ('a, 'b) call =
  receiver :: "'a QueryBuilder"
  returned :: "'b QueryBuilder"
  same_instance :: bool

definition new_QueryBuilder :: "'a list \<Rightarrow> 'a QueryBuilder" where
  "new_QueryBuilder xs = \<lparr>items = xs\<rparr>"

text \<open>\<open>a.m1(...).m2(...)\<close>: the second method is called on what the first returned.\<close>

definition chain ::
  "('a, 'a) call \<Rightarrow> ('a QueryBuilder \<Rightarrow> ('a, 'c) call) \<Rightarrow> ('a, 'c) call" where
  "chain c m =
     (let c2 = m (returned c)
      in \<lparr>receiver = (if same_instance c then receiver c2 else receiver c),
          returned = returned c2,
          same_instance = (same_instance c \<and> same_instance c2)\<rparr>)"

definition from_op :: "'a list \<Rightarrow> 'a QueryBuilder \<Rightarrow> ('a, 'a) call" where
  "from_op xs this =
     (let this' = this\<lparr>items := xs\<rparr>
      in \<lparr>receiver = this', returned = this', same_instance = True\<rparr>)"

definition select :: "string list \<Rightarrow> obj QueryBuilder \<Rightarrow> (obj, obj) call" where
  "select keys this =
     (let selectedItems =
            map (\<lambda>item. foldl (\<lambda>selectedItem k. set_property selectedItem k (get item k)) [] keys)
                (items this)
      in \<lparr>receiver = this, returned = new_QueryBuilder selectedItems, same_instance = False\<rparr>)"

definition where_op :: "('a \<Rightarrow> jsval) \<Rightarrow> 'a QueryBuilder \<Rightarrow> ('a, 'a) call" where
  "where_op predicate this =
     (let filteredItems = filter (\<lambda>item. truthy (predicate item)) (items this)
      in \<lparr>receiver = this, returned = new_QueryBuilder filteredItems, same_instance = False\<rparr>)"

definition skip :: "int \<Rightarrow> 'a QueryBuilder \<Rightarrow> ('a, 'a) call" where
  "skip n this =
     (let skippedItems = slice (items this) n None
      in \<lparr>receiver = this, returned = new_QueryBuilder skippedItems, same_instance = False\<rparr>)"

definition take_op :: "int \<Rightarrow> 'a QueryBuilder \<Rightarrow> ('a, 'a) call" where
  "take_op n this =
     (let takenItems = slice (items this) 0 (Some n)
      in \<lparr>receiver = this, returned = new_QueryBuilder takenItems, same_instance = False\<rparr>)"

definition toArray :: "'a QueryBuilder \<Rightarrow> 'a list" where
  "toArray this = items this"

definition page :: "int \<Rightarrow> int \<Rightarrow> 'a QueryBuilder \<Rightarrow> ('a, 'a) call" where
  "page pageIndex pageSize this =
     (let startIndex = pageIndex * pageSize
      in chain (skip startIndex this) (take_op pageSize))"

text \<open>
  The language standard fixes the result of \<open>xs.sort(compareFn)\<close> only when \<open>compareFn\<close> is
  a consistent comparator for the elements: \<open>cmp a a\<close> is zero, being zero is symmetric and
  transitive, and so are being negative and being positive transitive.
\<close>

definition consistent_comparator :: "('a \<Rightarrow> 'a \<Rightarrow> int) \<Rightarrow> 'a set \<Rightarrow> bool" where
  "consistent_comparator cmp S =
     ((\<forall>a \<in> S. cmp a a = 0)
      \<and> (\<forall>a \<in> S. \<forall>b \<in> S. cmp a b = 0 \<longrightarrow> cmp b a = 0)
      \<and> (\<forall>a \<in> S. \<forall>b \<in> S. \<forall>c \<in> S.
            (cmp a b = 0 \<and> cmp b c = 0 \<longrightarrow> cmp a c = 0)
            \<and> (cmp a b < 0 \<and> cmp b c < 0 \<longrightarrow> cmp a c < 0)
            \<and> (cmp a b > 0 \<and> cmp b c > 0 \<longrightarrow> cmp a c > 0)))"

text \<open>
  The result the standard fixes: the elements in sorted order, those that compare equal in
  their original order (the sort is stable). It is computed here by insertion from the
  right: an element goes in front of the first element it does not compare greater than.
\<close>

fun insert_sorted :: "('a \<Rightarrow> 'a \<Rightarrow> int) \<Rightarrow> 'a \<Rightarrow> 'a list \<Rightarrow> 'a list" where
  "insert_sorted cmp x [] = [x]"
| "insert_sorted cmp x (y # ys) =
     (if cmp x y \<le> 0 then x # y # ys else y # insert_sorted cmp x ys)"

definition js_sort :: "('a \<Rightarrow> 'a \<Rightarrow> int) \<Rightarrow> 'a list \<Rightarrow> 'a list" where
  "js_sort cmp xs = foldr (insert_sorted cmp) xs []"

text \<open>
  A host's sort conforms when it always returns a permutation of the array and, for a
  consistent comparator, the stable sorted order. Nothing is said of the order it returns
  otherwise.
\<close>

definition conforming_sort :: "host \<Rightarrow> bool" where
  "conforming_sort h =
     (\<forall>cmp xs. mset (array_sort h cmp xs) = mset xs
        \<and> (consistent_comparator cmp (set xs) \<longrightarrow> array_sort h cmp xs = js_sort cmp xs))"

text \<open>The comparison function that \<open>orderBy\<close> passes to \<open>sort\<close>; an absent \<open>descending\<close> is false.\<close>

definition compareFn :: "host \<Rightarrow> string \<Rightarrow> bool \<Rightarrow> obj \<Rightarrow> obj \<Rightarrow> int" where
  "compareFn h k descending a b =
     (let aVal = get a k; bVal = get b k
      in if strict_eq aVal bVal then 0
         else if js_gt h aVal bVal then (if descending then -1 else 1)
         else (if descending then 1 else -1))"

definition orderBy :: "host \<Rightarrow> string \<Rightarrow> bool \<Rightarrow> obj QueryBuilder \<Rightarrow> (obj, obj) call" where
  "orderBy h k descending this =
     (let sortedItems = array_sort h (compareFn h k descending) (slice (items this) 0 None)
      in \<lparr>receiver = this, returned = new_QueryBuilder sortedItems, same_instance = False\<rparr>)"

subsection \<open>Grouping\<close>

record ('k, 'g) group_record =
  key :: 'k
  group :: 'g

text \<open>
  One step of the \<open>reduce\<close> in \<open>groupBy\<close>: \<open>find\<close> gives the first group whose key is
  \<open>===\<close> the item's key and the item is pushed onto that group's array; when there is
  none, a new group is pushed last.
\<close>

fun push_item ::
  "(jsval, 'a list) group_record list \<Rightarrow> jsval \<Rightarrow> 'a \<Rightarrow> (jsval, 'a list) group_record list" where
  "push_item [] k item = [\<lparr>key = k, group = [item]\<rparr>]"
| "push_item (g # groups) k item =
     (if strict_eq (key g) k then g\<lparr>group := group g @ [item]\<rparr> # groups
      else g # push_item groups k item)"

definition groupBy ::
  "('a \<Rightarrow> jsval) \<Rightarrow> 'a QueryBuilder \<Rightarrow> ('a, (jsval, 'a list) group_record) call" where
  "groupBy keySelector this =
     (let groups = foldl (\<lambda>groups item. push_item groups (keySelector item) item) [] (items this)
      in \<lparr>receiver = this, returned = new_QueryBuilder groups, same_instance = False\<rparr>)"

text \<open>
  The host's \<open>Map\<close>: entries in insertion order, keys compared by \<open>SameValueZero\<close>.
  \<open>set\<close> replaces the value of an existing key in place and appends a new key, stored
  as \<open>+0\<close> when it is \<open>-0\<close>; \<open>get\<close> of an absent key is \<open>undefined\<close> (\<open>None\<close>).
\<close>

type_synonym 'v jsmap = "(jsval \<times> 'v) list"

fun map_get :: "'v jsmap \<Rightarrow> jsval \<Rightarrow> 'v option" where
  "map_get [] k = None"
| "map_get ((k', v) # m) k = (if same_value_zero k' k then Some v else map_get m k)"

fun map_put :: "'v jsmap \<Rightarrow> jsval \<Rightarrow> 'v \<Rightarrow> 'v jsmap" where
  "map_put [] k v = [(k, v)]"
| "map_put ((k', v') # m) k v =
     (if same_value_zero k' k then (k', v) # m else (k', v') # map_put m k v)"

definition canonical_key :: "jsval \<Rightarrow> jsval" where
  "canonical_key k = (if k = Number NegZero then Number (Fin 0) else k)"

definition map_set :: "'v jsmap \<Rightarrow> jsval \<Rightarrow> 'v \<Rightarrow> 'v jsmap" where
  "map_set m k v = map_put m (canonical_key k) v"

text \<open>
  An \<open>async\<close> method returns a promise; every one here runs to its \<open>return\<close> without
  suspending, so the promise is fulfilled with the returned value.
\<close>

datatype 'a promise = Fulfilled 'a | Rejected jsval

definition toGroup ::
  "('a \<Rightarrow> jsval) \<Rightarrow> (jsval \<Rightarrow> 'a list \<Rightarrow> 'g) \<Rightarrow> 'a QueryBuilder
     \<Rightarrow> (jsval, 'g) group_record list promise" where
  "toGroup keySelector groupSelector this =
     (let groupsMap =
            foldl (\<lambda>m item.
                     let k = keySelector item;
                         grp = (case map_get m k of None \<Rightarrow> [] | Some g \<Rightarrow> g)
                     in map_set m k (grp @ [item]))
                  [] (items this);
          groups = map (\<lambda>(k, grp). \<lparr>key = k, group = groupSelector k grp\<rparr>) groupsMap
      in Fulfilled groups)"

subsection \<open>Joining\<close>

datatype 'u join_source = Array "'u list" | Query "'u QueryBuilder"

definition join ::
  "jsval join_source \<Rightarrow> ('a \<Rightarrow> jsval) \<Rightarrow> (jsval \<Rightarrow> jsval) \<Rightarrow> ('a \<Rightarrow> jsval \<Rightarrow> jsval)
     \<Rightarrow> 'a QueryBuilder \<Rightarrow> ('a, jsval) call" where
  "join other keySelector otherKeySelector resultSelector this =
     (let otherItems = (case other of Query q \<Rightarrow> items q | Array xs \<Rightarrow> xs);
          otherItemsMap = foldl (\<lambda>m item. map_set m (otherKeySelector item) item) [] otherItems;
          joinedItems =
            filter (\<lambda>item. \<not> strict_eq item Undefined)
              (map (\<lambda>item.
                      let otherItem = (case map_get otherItemsMap (keySelector item) of
                                         None \<Rightarrow> Undefined
                                       | Some v \<Rightarrow> v)
                      in if truthy otherItem then resultSelector item otherItem else Undefined)
                   (items this))
      in \<lparr>receiver = this, returned = new_QueryBuilder joinedItems, same_instance = False\<rparr>)"

subsection \<open>Aggregates\<close>

text \<open>\<open>xs[i]\<close>: \<open>undefined\<close> (\<open>None\<close>) outside the array.\<close>

definition index :: "'a list \<Rightarrow> int \<Rightarrow> 'a option" where
  "index xs i = (if 0 \<le> i \<and> i < int (length xs) then Some (xs ! nat i) else None)"




text \<open>
  \<open>max\<close> and \<open>min\<close> reduce from \<open>null\<close> (\<open>None\<close>); \<open>maxItem == null\<close> holds of the initial
  value only, since the items are objects.
\<close>

definition max_op :: "host \<Rightarrow> string \<Rightarrow> obj QueryBuilder \<Rightarrow> obj option promise" where
  "max_op h k this =
     Fulfilled (foldl (\<lambda>maxItem item.
                         case maxItem of
                           None \<Rightarrow> Some item
                         | Some m \<Rightarrow> if js_gt h (get item k) (get m k) then Some item else Some m)
                      None (items this))"

definition min_op :: "host \<Rightarrow> string \<Rightarrow> obj QueryBuilder \<Rightarrow> obj option promise" where
  "min_op h k this =
     Fulfilled (foldl (\<lambda>minItem item.
                         case minItem of
                           None \<Rightarrow> Some item
                         | Some m \<Rightarrow> if js_lt h (get item k) (get m k) then Some item else Some m)
                      None (items this))"

definition any :: "'a QueryBuilder \<Rightarrow> bool promise" where
  "any this = Fulfilled (length (items this) > 0)"

definition all_op :: "('a \<Rightarrow> jsval) \<Rightarrow> 'a QueryBuilder \<Rightarrow> bool promise" where
  "all_op predicate this = Fulfilled (list_all (\<lambda>item. truthy (predicate item)) (items this))"

definition first :: "'a QueryBuilder \<Rightarrow> 'a option promise" where
  "first this = Fulfilled (index (items this) 0)"

definition last_op :: "'a QueryBuilder \<Rightarrow> 'a option promise" where
  "last_op this = Fulfilled (index (items this) (int (length (items this)) - 1))"

section \<open>What the specification says of grouping\<close>

text \<open>
  The keys of a sequence in first-seen order: a key, then the first-seen order of the
  later keys that are not \<open>===\<close> to it.
\<close>

fun first_seen :: "jsval list \<Rightarrow> jsval list" where
  "first_seen [] = []"
| "first_seen (k # ks) = k # first_seen (filter (\<lambda>k'. \<not> strict_eq k k') ks)"

text \<open>
  The partition of a sequence by key: the first group is keyed by the first item's key
  and holds that item and, in their order, the later items whose key is \<open>===\<close> to it;
  the other groups are the partition of the remaining items.
\<close>

fun partition_by :: "('a \<Rightarrow> jsval) \<Rightarrow> 'a list \<Rightarrow> (jsval, 'a list) group_record list" where
  "partition_by f [] = []"
| "partition_by f (x # xs) =
     \<lparr>key = f x, group = x # filter (\<lambda>y. strict_eq (f x) (f y)) xs\<rparr>
       # partition_by f (filter (\<lambda>y. \<not> strict_eq (f x) (f y)) xs)"

text \<open>
  The last other-item whose key equals \<open>k\<close> under the key equality of the lookup, if any.
\<close>

definition last_with_key :: "(jsval \<Rightarrow> jsval) \<Rightarrow> jsval \<Rightarrow> jsval list \<Rightarrow> jsval option" where
  "last_with_key otherKeySelector k others =
     (let matches = filter (\<lambda>u. same_value_zero (otherKeySelector u) k) others
      in if matches = [] then None else Some (last matches))"

section \<open>Totally ordered field values\<close>

text \<open>
  The values \<open>vs\<close> are totally ordered by the host's \<open><\<close>, \<open>>\<close> and \<open>===\<close>: of any two,
  exactly one of \<open>a < b\<close>, \<open>a === b\<close>, \<open>a > b\<close> holds, and \<open><\<close> is transitive. Numbers
  other than \<open>NaN\<close> are, and so are strings; a sequence holding \<open>NaN\<close>, \<open>undefined\<close> next
  to a number, or two different objects is not.
\<close>

definition totally_ordered :: "host \<Rightarrow> jsval list \<Rightarrow> bool" where
  "totally_ordered h vs =
     ((\<forall>a \<in> set vs. \<forall>b \<in> set vs.
          (js_lt h a b \<and> \<not> strict_eq a b \<and> \<not> js_gt h a b)
        \<or> (\<not> js_lt h a b \<and> strict_eq a b \<and> \<not> js_gt h a b)
        \<or> (\<not> js_lt h a b \<and> \<not> strict_eq a b \<and> js_gt h a b))
      \<and> (\<forall>a \<in> set vs. \<forall>b \<in> set vs. \<forall>c \<in> set vs.
            js_lt h a b \<and> js_lt h b c \<longrightarrow> js_lt h a c))"

section \<open>Instances and arrays by reference\<close>

text \<open>
  Instances of \<open>QueryBuilder\<close> and arrays are objects of the host: a variable holds a
  reference, two references may name the same object, and \<open>from\<close> and \<open>sort\<close> write to
  the object they are given. The heap maps the reference of an array to its elements and
  the reference of an instance to its \<open>items\<close> field, which is the reference of an
  array. References are allocated in increasing order; \<open>next_ref\<close> is the first unused one.
\<close>

record 'v heap =
  arrays :: "nat \<rightharpoonup> 'v list"
  engines :: "nat \<rightharpoonup> nat"
  next_ref :: nat

text \<open>
  In a well-formed heap every allocated reference is below \<open>next_ref\<close> and the \<open>items\<close>
  field of every instance is an allocated array.
\<close>

definition well_formed :: "'v heap \<Rightarrow> bool" where
  "well_formed h =
     ((\<forall>r \<in> dom (arrays h). r < next_ref h)
      \<and> (\<forall>e \<in> dom (engines h). e < next_ref h)
      \<and> (\<forall>e a. engines h e = Some a \<longrightarrow> a \<in> dom (arrays h)))"

text \<open>An array literal or the result of a copying method: a new array.\<close>

definition new_array :: "'v list \<Rightarrow> 'v heap \<Rightarrow> nat \<times> 'v heap" where
  "new_array xs h =
     (next_ref h, h\<lparr>arrays := (arrays h)(next_ref h \<mapsto> xs), next_ref := Suc (next_ref h)\<rparr>)"

text \<open>
  \<open>new QueryBuilder(items)\<close>: a new instance whose \<open>items\<close> field is the reference it is
  given (the constructor does not copy the array).
\<close>

definition new_instance :: "nat \<Rightarrow> 'v heap \<Rightarrow> nat \<times> 'v heap" where
  "new_instance a h =
     (next_ref h, h\<lparr>engines := (engines h)(next_ref h \<mapsto> a), next_ref := Suc (next_ref h)\<rparr>)"

definition elements :: "'v heap \<Rightarrow> nat \<Rightarrow> 'v list" where
  "elements h a = (case arrays h a of None \<Rightarrow> [] | Some xs \<Rightarrow> xs)"

text \<open>\<open>this.items\<close>, a reference, and the elements of the array it names.\<close>

definition items_field :: "'v heap \<Rightarrow> nat \<Rightarrow> nat" where
  "items_field h this = (case engines h this of None \<Rightarrow> next_ref h | Some a \<Rightarrow> a)"

definition contents :: "'v heap \<Rightarrow> nat \<Rightarrow> 'v list" where
  "contents h this = elements h (items_field h this)"

text \<open>
  The array methods the class calls. \<open>slice\<close>, \<open>filter\<close> and \<open>map\<close> return a new array
  and leave theirs as it is; \<open>sort\<close> reorders the array it is called on and returns that
  same array.
\<close>

definition array_slice :: "nat \<Rightarrow> int \<Rightarrow> int option \<Rightarrow> 'v heap \<Rightarrow> nat \<times> 'v heap" where
  "array_slice a start fin h = new_array (slice (elements h a) start fin) h"

definition array_filter :: "('v \<Rightarrow> bool) \<Rightarrow> nat \<Rightarrow> 'v heap \<Rightarrow> nat \<times> 'v heap" where
  "array_filter p a h = new_array (filter p (elements h a)) h"

definition array_map :: "('v \<Rightarrow> 'v) \<Rightarrow> nat \<Rightarrow> 'v heap \<Rightarrow> nat \<times> 'v heap" where
  "array_map f a h = new_array (map f (elements h a)) h"

definition array_sort_in_place ::
  "('v list \<Rightarrow> 'v list) \<Rightarrow> nat \<Rightarrow> 'v heap \<Rightarrow> nat \<times> 'v heap" where
  "array_sort_in_place sorted_order a h =
     (a, h\<lparr>arrays := (arrays h)(a \<mapsto> sorted_order (elements h a))\<rparr>)"

text \<open>
  The chain operators on the heap: each takes the reference \<open>this\<close> and the heap and
  gives the reference it returns and the heap after the call. \<open>from\<close> stores the
  reference it is given in \<open>this.items\<close> and returns \<open>this\<close>.
\<close>

definition heap_from :: "nat \<Rightarrow> nat \<Rightarrow> 'v heap \<Rightarrow> nat \<times> 'v heap" where
  "heap_from new_items this h = (this, h\<lparr>engines := (engines h)(this \<mapsto> new_items)\<rparr>)"

definition heap_select :: "string list \<Rightarrow> nat \<Rightarrow> obj heap \<Rightarrow> nat \<times> obj heap" where
  "heap_select keys this h =
     (let (selectedItems, h1) =
            array_map (\<lambda>item. foldl (\<lambda>selectedItem k. set_property selectedItem k (get item k)) [] keys)
              (items_field h this) h
      in new_instance selectedItems h1)"

definition heap_where :: "('v \<Rightarrow> jsval) \<Rightarrow> nat \<Rightarrow> 'v heap \<Rightarrow> nat \<times> 'v heap" where
  "heap_where predicate this h =
     (let (filteredItems, h1) = array_filter (\<lambda>item. truthy (predicate item)) (items_field h this) h
      in new_instance filteredItems h1)"

definition heap_orderBy :: "host \<Rightarrow> string \<Rightarrow> bool \<Rightarrow> nat \<Rightarrow> obj heap \<Rightarrow> nat \<times> obj heap" where
  "heap_orderBy hst k descending this h =
     (let (copy, h1) = array_slice (items_field h this) 0 None h;
          (sortedItems, h2) = array_sort_in_place (array_sort hst (compareFn hst k descending)) copy h1
      in new_instance sortedItems h2)"

definition heap_skip :: "int \<Rightarrow> nat \<Rightarrow> 'v heap \<Rightarrow> nat \<times> 'v heap" where
  "heap_skip n this h =
     (let (skippedItems, h1) = array_slice (items_field h this) n None h
      in new_instance skippedItems h1)"

definition heap_take :: "int \<Rightarrow> nat \<Rightarrow> 'v heap \<Rightarrow> nat \<times> 'v heap" where
  "heap_take n this h =
     (let (takenItems, h1) = array_slice (items_field h this) 0 (Some n) h
      in new_instance takenItems h1)"

definition heap_page :: "int \<Rightarrow> int \<Rightarrow> nat \<Rightarrow> 'v heap \<Rightarrow> nat \<times> 'v heap" where
  "heap_page pageIndex pageSize this h =
     (let startIndex = pageIndex * pageSize;
          (skipped, h1) = heap_skip startIndex this h
      in heap_take pageSize skipped h1)"

text \<open>
  \<open>groupBy\<close> makes an instance of group records from an instance of items, and the
  result can be grouped again; a cell of the heap is an item or a group record, whose
  \<open>group\<close> is the array of the cells pushed onto it. \<open>new QueryBuilder()\<close> allocates the
  default array \<open>[]\<close> and the instance; the array built by \<open>reduce\<close> is then assigned to
  the \<open>items\<close> field of that new instance.
\<close>

datatype 'a cell = Item 'a | Group jsval "'a cell list"

definition group_cell :: "(jsval, 'a cell list) group_record \<Rightarrow> 'a cell" where
  "group_cell g = Group (key g) (group g)"

definition heap_groupBy ::
  "('a cell \<Rightarrow> jsval) \<Rightarrow> nat \<Rightarrow> 'a cell heap \<Rightarrow> nat \<times> 'a cell heap" where
  "heap_groupBy keySelector this h =
     (let (defaultItems, h1) = new_array [] h;
          (groupQuery, h2) = new_instance defaultItems h1;
          (groups, h3) =
             new_array (map group_cell
                          (foldl (\<lambda>groups item. push_item groups (keySelector item) item) []
                             (contents h2 this))) h2
      in (groupQuery, h3\<lparr>engines := (engines h3)(groupQuery \<mapsto> groups)\<rparr>))"

text \<open>
  \<open>join\<close> takes \<open>other\<close> by reference, an array or an instance
  (\<open>other instanceof QueryBuilder ? other.items : other\<close>), and reads it.
\<close>

datatype source_ref = ArrayRef nat | InstanceRef nat

definition heap_join ::
  "source_ref \<Rightarrow> (jsval \<Rightarrow> jsval) \<Rightarrow> (jsval \<Rightarrow> jsval) \<Rightarrow> (jsval \<Rightarrow> jsval \<Rightarrow> jsval)
     \<Rightarrow> nat \<Rightarrow> jsval heap \<Rightarrow> nat \<times> jsval heap" where
  "heap_join other keySelector otherKeySelector resultSelector this h =
     (let otherItems = (case other of InstanceRef q \<Rightarrow> items_field h q | ArrayRef a \<Rightarrow> a);
          otherItemsMap =
            foldl (\<lambda>m item. map_set m (otherKeySelector item) item) [] (elements h otherItems);
          (mapped, h1) =
             array_map
               (\<lambda>item.
                  let otherItem = (case map_get otherItemsMap (keySelector item) of
                                     None \<Rightarrow> Undefined
                                   | Some v \<Rightarrow> v)
                  in if truthy otherItem then resultSelector item otherItem else Undefined)
               (items_field h this) h;
          (joinedItems, h2) = array_filter (\<lambda>item. \<not> strict_eq item Undefined) mapped h1
      in new_instance joinedItems h2)"

text \<open>The other-items \<open>join\<close> reads.\<close>

definition other_items :: "'v heap \<Rightarrow> source_ref \<Rightarrow> 'v list" where
  "other_items h other =
     elements h (case other of InstanceRef q \<Rightarrow> items_field h q | ArrayRef a \<Rightarrow> a)"

text \<open>
  \<open>unchanged h h'\<close>: every array of \<open>h\<close> has the same elements in \<open>h'\<close> and every
  instance of \<open>h\<close> the same \<open>items\<close> reference. A call returns a new instance when the
  reference it returns is not the receiver and is allocated by the call, that instance
  wraps the given sequence in an array that is allocated by the call too, and nothing that
  existed before the call has changed; the receiver then wraps what it wrapped.
\<close>

definition unchanged :: "'v heap \<Rightarrow> 'v heap \<Rightarrow> bool" where
  "unchanged h h' =
     ((\<forall>a \<in> dom (arrays h). arrays h' a = arrays h a)
      \<and> (\<forall>e \<in> dom (engines h). engines h' e = engines h e))"

definition returns_new_instance :: "'v heap \<Rightarrow> nat \<Rightarrow> nat \<times> 'v heap \<Rightarrow> 'v list \<Rightarrow> bool" where
  "returns_new_instance h this res xs =
     (case res of (r, h') \<Rightarrow>
        r \<noteq> this \<and> r \<notin> dom (engines h) \<and> r \<notin> dom (arrays h)
        \<and> r \<in> dom (engines h') \<and> items_field h' r \<notin> dom (arrays h)
        \<and> contents h' r = xs
        \<and> unchanged h h' \<and> contents h' this = contents h this \<and> well_formed h')"

section \<open>Examples\<close>

text \<open>
  A host for the examples. Its sum and quotient follow the rules of the doubles for
  \<open>NaN\<close>, the infinities and the zeros, and are the exact sum and quotient of two finite
  numbers: the double result wherever that is exact, as on the small integers of the
  examples, and unrounded where the host would round. Its sort is the stable sorted order.
  No example parses a string as a number.
\<close>

definition is_zero :: "jsnum \<Rightarrow> bool" where
  "is_zero a = (a = Fin 0 \<or> a = NegZero)"

definition is_infinite :: "jsnum \<Rightarrow> bool" where
  "is_infinite a = (a = PosInf \<or> a = NegInf)"

definition is_negative :: "jsnum \<Rightarrow> bool" where
  "is_negative a = (a = NegInf \<or> a = NegZero \<or> magnitude a < 0)"

definition exact_add :: "jsnum \<Rightarrow> jsnum \<Rightarrow> jsnum" where
  "exact_add a b =
     (if a = NaN \<or> b = NaN then NaN
      else if is_infinite a \<and> is_infinite b then (if a = b then a else NaN)
      else if is_infinite a then a
      else if is_infinite b then b
      else if a = NegZero \<and> b = NegZero then NegZero
      else Fin (magnitude a + magnitude b))"

definition exact_div :: "jsnum \<Rightarrow> jsnum \<Rightarrow> jsnum" where
  "exact_div a b =
     (if a = NaN \<or> b = NaN then NaN
      else if (is_infinite a \<and> is_infinite b) \<or> (is_zero a \<and> is_zero b) then NaN
      else if is_infinite a \<or> is_zero b
        then (if is_negative a = is_negative b then PosInf else NegInf)
      else if is_zero a \<or> is_infinite b
        then (if is_negative a = is_negative b then Fin 0 else NegZero)
      else Fin (magnitude a / magnitude b))"

definition example_host :: host where
  "example_host =
     \<lparr>StringToNumber = (\<lambda>s. NaN),
      num_add = exact_add,
      num_div = exact_div,
      array_sort = js_sort\<rparr>"

text \<open>The three people of the repository's tests, with the fields the examples read.\<close>

definition alice :: obj where
  "alice = [(''id'', Number (Fin 1)), (''name'', Str ''Alice''), (''age'', Number (Fin 30)),
            (''departmentId'', Number (Fin 1))]"

definition bob :: obj where
  "bob = [(''id'', Number (Fin 2)), (''name'', Str ''Bob''), (''age'', Number (Fin 25)),
          (''departmentId'', Number (Fin 2))]"

definition charlie :: obj where
  "charlie = [(''id'', Number (Fin 3)), (''name'', Str ''Charlie''), (''age'', Number (Fin 35)),
              (''departmentId'', Number (Fin 1))]"

definition dana :: obj where
  "dana = [(''id'', Number (Fin 4)), (''name'', Str ''Dana''), (''age'', Number (Fin 35)),
           (''departmentId'', Number (Fin 2))]"

definition erin :: obj where
  "erin = [(''id'', Number (Fin 5)), (''name'', Str ''Erin''), (''age'', Number (Fin 25)),
           (''departmentId'', Number (Fin 1))]"

text \<open>Two records whose rating is not a number.\<close>

definition unrated_a :: obj where
  "unrated_a = [(''id'', Number (Fin 1)), (''rating'', Number NaN)]"

definition unrated_b :: obj where
  "unrated_b = [(''id'', Number (Fin 2)), (''rating'', Number NaN)]"

text \<open>A record whose balance is the negative zero.\<close>

definition settled :: obj where
  "settled = [(''id'', Number (Fin 3)), (''balance'', Number NegZero)]"

text \<open>A person of department 0, and departments as values; two of them share the id 1.\<close>

definition frank :: obj where
  "frank = [(''id'', Number (Fin 6)), (''name'', Str ''Frank''), (''age'', Number (Fin 41)),
            (''departmentId'', Number (Fin 0))]"

definition hr :: jsval where
  "hr = Object 101 [(''id'', Number (Fin 1)), (''name'', Str ''HR'')]"

definition engineering :: jsval where
  "engineering = Object 102 [(''id'', Number (Fin 2)), (''name'', Str ''Engineering'')]"

definition people_dept :: jsval where
  "people_dept = Object 103 [(''id'', Number (Fin 1)), (''name'', Str ''People'')]"

text \<open>The property \<open>v[k]\<close> of an object; the examples read properties of objects only.\<close>

definition property :: "string \<Rightarrow> jsval \<Rightarrow> jsval" where
  "property k v = (case v of Object r fs \<Rightarrow> get fs k | _ \<Rightarrow> Undefined)"

text \<open>
  Heaps for the examples. In the first, array 0 holds three people, array 1 two others,
  and instance 2 wraps array 0. In the second, instance 1 wraps an array of three items.
  In the third, instance 2 wraps an array of people and instance 3 an array of departments.
\<close>

definition people_heap :: "obj heap" where
  "people_heap =
     \<lparr>arrays = [0 \<mapsto> [bob, charlie, alice], 1 \<mapsto> [dana, erin]],
      engines = [2 \<mapsto> 0],
      next_ref = 3\<rparr>"

definition staff_heap :: "obj cell heap" where
  "staff_heap =
     \<lparr>arrays = [0 \<mapsto> [Item alice, Item bob, Item charlie]],
      engines = [1 \<mapsto> 0],
      next_ref = 2\<rparr>"

definition department_of :: "obj cell \<Rightarrow> jsval" where
  "department_of c = (case c of Item person \<Rightarrow> get person ''departmentId'' | Group k g \<Rightarrow> Undefined)"

definition company_heap :: "jsval heap" where
  "company_heap =
     \<lparr>arrays = [0 \<mapsto> [Object 1 alice, Object 6 frank, Object 2 bob],
                1 \<mapsto> [hr, engineering, people_dept]],
      engines = [2 \<mapsto> 0, 3 \<mapsto> 1],
      next_ref = 4\<rparr>"

section \<open>Slicing, paging and filtering\<close>

lemma slice_whole: "slice xs 0 None = xs"
  by (simp add: slice_def)

lemma slice_from_nat: "slice xs (int m) None = drop m xs"
proof (cases "m \<le> length xs")
  case True
  then have "min (int m) (int (length xs)) = int m" by simp
  then show ?thesis by (simp add: slice_def Let_def)
next
  case False
  then have "min (int m) (int (length xs)) = int (length xs)" by simp
  with False show ?thesis by (simp add: slice_def Let_def)
qed

lemma slice_to_nat: "slice xs 0 (Some (int n)) = take n xs"
proof (cases "n \<le> length xs")
  case True
  then have "min (int n) (int (length xs)) = int n" by simp
  then show ?thesis by (simp add: slice_def Let_def)
next
  case False
  then have "min (int n) (int (length xs)) = int (length xs)" by simp
  with False show ?thesis by (simp add: slice_def Let_def)
qed

lemma page_items:
  "items (returned (page pageIndex pageSize this))
     = slice (slice (items this) (pageIndex * pageSize) None) 0 (Some pageSize)"
  by (simp add: page_def chain_def skip_def take_op_def new_QueryBuilder_def Let_def)

text \<open>
  C4. For every sequence and every predicate, the array of \<open>where(P)\<close> is a subsequence
  of the engine's items (so every output element occurs in the input, in the input's
  order), every element of it satisfies \<open>P\<close>, and no element satisfying \<open>P\<close> is dropped:
  each occurs in the output as often as in the input.
\<close>

theorem where_keeps_exactly_the_satisfying_items:
  "subseq (toArray (returned (where_op P this))) (toArray this)
   \<and> (\<forall>x \<in> set (toArray (returned (where_op P this))). truthy (P x))
   \<and> mset (toArray (returned (where_op P this)))
       = filter_mset (\<lambda>x. truthy (P x)) (mset (toArray this))"
  by (simp add: where_op_def toArray_def new_QueryBuilder_def)

theorem where_keeps_exactly_the_satisfying_items_witness:
  "toArray (returned (where_op (\<lambda>a. Boolean (25 < a)) (new_QueryBuilder [30, 25, 35 :: int])))
     = [30, 35]
   \<and> subseq [30, 35] [30, 25, 35 :: int]"
proof -
  let ?P = "\<lambda>a :: int. Boolean (25 < a)"
  let ?q = "new_QueryBuilder [30, 25, 35 :: int]"
  have out: "toArray (returned (where_op ?P ?q)) = [30, 35]"
    by (simp add: where_op_def toArray_def new_QueryBuilder_def)
  have src: "toArray ?q = [30, 25, 35]"
    by (simp add: toArray_def new_QueryBuilder_def)
  from where_keeps_exactly_the_satisfying_items [of ?P ?q]
  have "subseq [30, 35] [30, 25, 35 :: int]"
    unfolding out src by blast
  with out show ?thesis by blast
qed

text \<open>
  C6. For every engine, page index and page size, \<open>page(pageIndex, pageSize)\<close> gives the
  same array as \<open>skip(pageIndex * pageSize).take(pageSize)\<close>. Page indices are zero-based:
  for natural numbers \<open>i\<close> and \<open>n\<close> the page holds the \<open>n\<close> items after the first \<open>i * n\<close>,
  and page \<open>0\<close> is the first \<open>n\<close> items.
\<close>

theorem page_is_skip_then_take:
  "toArray (returned (page pageIndex pageSize this))
     = toArray (returned (take_op pageSize (returned (skip (pageIndex * pageSize) this))))
   \<and> toArray (returned (page (int i) (int n) this)) = take n (drop (i * n) (toArray this))
   \<and> toArray (returned (page 0 (int n) this)) = take n (toArray this)"
proof -
  have a: "toArray (returned (page pageIndex pageSize this))
     = toArray (returned (take_op pageSize (returned (skip (pageIndex * pageSize) this))))"
    by (simp add: page_def chain_def skip_def take_op_def toArray_def new_QueryBuilder_def Let_def)
  have "items (returned (page (int i) (int n) this))
          = slice (slice (items this) (int (i * n)) None) 0 (Some (int n))"
    by (simp add: page_items)
  then have b: "toArray (returned (page (int i) (int n) this)) = take n (drop (i * n) (toArray this))"
    by (simp only: slice_from_nat slice_to_nat toArray_def)
  have "items (returned (page 0 (int n) this))
          = slice (slice (items this) (int 0) None) 0 (Some (int n))"
    by (simp add: page_items)
  then have c: "toArray (returned (page 0 (int n) this)) = take n (toArray this)"
    by (simp only: slice_from_nat slice_to_nat toArray_def drop_0)
  from a b c show ?thesis by blast
qed

section \<open>Which operator assigns the receiver\<close>

text \<open>
  A reference of a well-formed heap that is an instance has an \<open>items\<close> array, and both
  are below \<open>next_ref\<close>: what a call allocates is none of them.
\<close>

lemma receiver_in_heap:
  assumes "well_formed h" "this \<in> dom (engines h)"
  obtains a where "engines h this = Some a" "a \<in> dom (arrays h)" "a < next_ref h"
    "this < next_ref h"
  using assms unfolding well_formed_def by (metis domD domI)

lemma extension_returns_new_instance:
  assumes wf: "well_formed h" and rcv: "this \<in> dom (engines h)"
    and old_arrays: "\<And>x. x < next_ref h \<Longrightarrow> arrays h' x = arrays h x"
    and old_engines: "\<And>x. x < next_ref h \<Longrightarrow> engines h' x = engines h x"
    and r: "next_ref h \<le> r" "engines h' r = Some a'" "arrays h' a' = Some xs"
    and fresh: "next_ref h \<le> a'"
    and wf': "well_formed h'"
  shows "returns_new_instance h this (r, h') xs"
proof -
  from wf rcv obtain a where a: "engines h this = Some a" "a \<in> dom (arrays h)"
    "a < next_ref h" "this < next_ref h"
    by (rule receiver_in_heap)
  have 1: "r \<noteq> this" using r(1) a(4) by simp
  have "r \<notin> dom (engines h) \<and> r \<notin> dom (arrays h)"
    using wf r(1) unfolding well_formed_def by (meson leD)
  then have 2: "r \<notin> dom (engines h)" "r \<notin> dom (arrays h)" by simp_all
  have 3: "r \<in> dom (engines h')" using r(2) by blast
  have "a' \<notin> dom (arrays h)"
    using wf fresh unfolding well_formed_def by (meson leD)
  then have 7: "items_field h' r \<notin> dom (arrays h)"
    using r(2) by (simp add: items_field_def)
  have 4: "contents h' r = xs"
    using r(2,3) by (simp add: contents_def elements_def items_field_def)
  have 5: "unchanged h h'"
    unfolding unchanged_def using wf old_arrays old_engines unfolding well_formed_def by simp
  have 6: "contents h' this = contents h this"
    using a old_arrays [OF a(3)] old_engines [OF a(4)]
    by (simp add: contents_def elements_def items_field_def)
  from 1 2 3 4 5 6 7 wf' show ?thesis by (simp add: returns_new_instance_def)
qed

lemma well_formed_new_array: "well_formed h \<Longrightarrow> well_formed (snd (new_array xs h))"
  unfolding well_formed_def new_array_def by (auto simp: less_Suc_eq)

lemma well_formed_new_instance:
  "well_formed h \<Longrightarrow> a \<in> dom (arrays h) \<Longrightarrow> well_formed (snd (new_instance a h))"
  unfolding well_formed_def new_instance_def by (auto simp: less_Suc_eq)

lemma array_then_instance:
  assumes wf: "well_formed h" and rcv: "this \<in> dom (engines h)"
  shows "returns_new_instance h this (case new_array xs h of (a, h1) \<Rightarrow> new_instance a h1) xs"
proof -
  let ?n = "next_ref h"
  let ?h1 = "snd (new_array xs h)"
  let ?h2 = "snd (new_instance ?n ?h1)"
  have res: "(case new_array xs h of (a, h1) \<Rightarrow> new_instance a h1) = (Suc ?n, ?h2)"
    by (simp add: new_array_def new_instance_def)
  have "well_formed ?h1" using wf by (rule well_formed_new_array)
  moreover have "?n \<in> dom (arrays ?h1)" by (simp add: new_array_def)
  ultimately have wf2: "well_formed ?h2" by (rule well_formed_new_instance)
  show ?thesis
    unfolding res
  proof (rule extension_returns_new_instance [OF wf rcv])
    show "arrays ?h2 x = arrays h x" if "x < ?n" for x
      using that by (simp add: new_array_def new_instance_def)
    show "engines ?h2 x = engines h x" if "x < ?n" for x
      using that by (simp add: new_array_def new_instance_def)
    show "?n \<le> Suc ?n" by simp
    show "engines ?h2 (Suc ?n) = Some ?n" by (simp add: new_array_def new_instance_def)
    show "arrays ?h2 ?n = Some xs" by (simp add: new_array_def new_instance_def)
    show "?n \<le> ?n" by simp
    show "well_formed ?h2" by (rule wf2)
  qed
qed

lemma heap_where_frame:
  assumes "well_formed h" "this \<in> dom (engines h)"
  shows "returns_new_instance h this (heap_where p this h)
           (toArray (returned (where_op p (new_QueryBuilder (contents h this)))))"
proof -
  have "heap_where p this h
          = (case new_array (filter (\<lambda>item. truthy (p item)) (contents h this)) h of
               (a, h1) \<Rightarrow> new_instance a h1)"
    by (simp add: heap_where_def array_filter_def contents_def)
  moreover have "toArray (returned (where_op p (new_QueryBuilder (contents h this))))
          = filter (\<lambda>item. truthy (p item)) (contents h this)"
    by (simp add: toArray_def where_op_def new_QueryBuilder_def)
  ultimately show ?thesis using array_then_instance [OF assms] by simp
qed

lemma heap_select_frame:
  assumes "well_formed h" "this \<in> dom (engines h)"
  shows "returns_new_instance h this (heap_select ks this h)
           (toArray (returned (select ks (new_QueryBuilder (contents h this)))))"
proof -
  let ?f = "\<lambda>item. foldl (\<lambda>selectedItem k. set_property selectedItem k (get item k)) [] ks"
  have "heap_select ks this h
          = (case new_array (map ?f (contents h this)) h of (a, h1) \<Rightarrow> new_instance a h1)"
    by (simp add: heap_select_def array_map_def contents_def)
  moreover have "toArray (returned (select ks (new_QueryBuilder (contents h this))))
          = map ?f (contents h this)"
    by (simp add: toArray_def select_def new_QueryBuilder_def)
  ultimately show ?thesis using array_then_instance [OF assms] by simp
qed

lemma heap_skip_frame:
  assumes "well_formed h" "this \<in> dom (engines h)"
  shows "returns_new_instance h this (heap_skip n this h)
           (toArray (returned (skip n (new_QueryBuilder (contents h this)))))"
proof -
  have "heap_skip n this h
          = (case new_array (slice (contents h this) n None) h of (a, h1) \<Rightarrow> new_instance a h1)"
    by (simp add: heap_skip_def array_slice_def contents_def)
  moreover have "toArray (returned (skip n (new_QueryBuilder (contents h this))))
          = slice (contents h this) n None"
    by (simp add: toArray_def skip_def new_QueryBuilder_def)
  ultimately show ?thesis using array_then_instance [OF assms] by simp
qed

lemma heap_take_frame:
  assumes "well_formed h" "this \<in> dom (engines h)"
  shows "returns_new_instance h this (heap_take n this h)
           (toArray (returned (take_op n (new_QueryBuilder (contents h this)))))"
proof -
  have "heap_take n this h
          = (case new_array (slice (contents h this) 0 (Some n)) h of (a, h1) \<Rightarrow> new_instance a h1)"
    by (simp add: heap_take_def array_slice_def contents_def)
  moreover have "toArray (returned (take_op n (new_QueryBuilder (contents h this))))
          = slice (contents h this) 0 (Some n)"
    by (simp add: toArray_def take_op_def new_QueryBuilder_def)
  ultimately show ?thesis using array_then_instance [OF assms] by simp
qed

lemma heap_orderBy_frame:
  assumes "well_formed h" "this \<in> dom (engines h)"
  shows "returns_new_instance h this (heap_orderBy hst k d this h)
           (toArray (returned (orderBy hst k d (new_QueryBuilder (contents h this)))))"
proof -
  let ?xs = "array_sort hst (compareFn hst k d) (slice (contents h this) 0 None)"
  have "heap_orderBy hst k d this h = (case new_array ?xs h of (a, h1) \<Rightarrow> new_instance a h1)"
    by (simp add: heap_orderBy_def array_slice_def array_sort_in_place_def new_array_def
        new_instance_def contents_def elements_def)
  moreover have "toArray (returned (orderBy hst k d (new_QueryBuilder (contents h this)))) = ?xs"
    by (simp add: toArray_def orderBy_def new_QueryBuilder_def)
  ultimately show ?thesis using array_then_instance [OF assms] by simp
qed


lemma unchanged_contents:
  assumes "well_formed h" "this \<in> dom (engines h)" "unchanged h h'"
  shows "contents h' this = contents h this"
proof -
  from assms(1,2) obtain a where a: "engines h this = Some a" "a \<in> dom (arrays h)"
    by (rule receiver_in_heap)
  with assms(2,3) have "engines h' this = Some a" "arrays h' a = arrays h a"
    unfolding unchanged_def by simp_all
  with a show ?thesis by (simp add: contents_def elements_def items_field_def)
qed

lemma returns_new_instance_chain:
  assumes wf: "well_formed h" and rcv: "this \<in> dom (engines h)"
    and one: "returns_new_instance h this (r1, h1) xs1"
    and two: "returns_new_instance h1 r1 (r2, h2) xs2"
  shows "returns_new_instance h this (r2, h2) xs2"
proof -
  from one have 1: "r1 \<in> dom (engines h1)" "unchanged h h1" "well_formed h1"
    "contents h1 this = contents h this"
    by (simp_all add: returns_new_instance_def)
  from two have 2: "r2 \<notin> dom (engines h1)" "r2 \<notin> dom (arrays h1)" "r2 \<in> dom (engines h2)"
    "contents h2 r2 = xs2" "unchanged h1 h2" "well_formed h2"
    "items_field h2 r2 \<notin> dom (arrays h1)"
    by (simp_all add: returns_new_instance_def)
  have sub: "dom (engines h) \<subseteq> dom (engines h1)" "dom (arrays h) \<subseteq> dom (arrays h1)"
    using 1(2) unfolding unchanged_def by (auto simp: domIff)
  have a: "r2 \<noteq> this" "r2 \<notin> dom (engines h)" "r2 \<notin> dom (arrays h)"
    "items_field h2 r2 \<notin> dom (arrays h)"
    using 2(1,2,7) sub rcv by auto
  have u: "unchanged h h2"
    using 1(2) 2(5) sub unfolding unchanged_def by (metis subsetD)
  have "contents h2 this = contents h this"
    using unchanged_contents [OF wf rcv u] .
  with a 2(3,4,6) u show ?thesis by (simp add: returns_new_instance_def)
qed

lemma heap_page_frame:
  assumes wf: "well_formed h" and rcv: "this \<in> dom (engines h)"
  shows "returns_new_instance h this (heap_page i n this h)
           (toArray (returned (page i n (new_QueryBuilder (contents h this)))))"
proof -
  obtain r1 h1 where s: "heap_skip (i * n) this h = (r1, h1)" by (cases "heap_skip (i * n) this h")
  obtain r2 h2 where t: "heap_take n r1 h1 = (r2, h2)" by (cases "heap_take n r1 h1")
  have p: "heap_page i n this h = (r2, h2)" by (simp add: heap_page_def s t)
  from heap_skip_frame [OF wf rcv, of "i * n"]
  have one: "returns_new_instance h this (r1, h1) (slice (contents h this) (i * n) None)"
    by (simp add: s toArray_def skip_def new_QueryBuilder_def)
  then have 1: "r1 \<in> dom (engines h1)" "well_formed h1"
    "contents h1 r1 = slice (contents h this) (i * n) None"
    by (simp_all add: returns_new_instance_def)
  from heap_take_frame [OF 1(2) 1(1), of n]
  have two: "returns_new_instance h1 r1 (r2, h2)
               (slice (slice (contents h this) (i * n) None) 0 (Some n))"
    by (simp add: t 1(3) toArray_def take_op_def new_QueryBuilder_def)
  have "toArray (returned (page i n (new_QueryBuilder (contents h this))))
          = slice (slice (contents h this) (i * n) None) 0 (Some n)"
    by (simp add: toArray_def page_items new_QueryBuilder_def)
  with returns_new_instance_chain [OF wf rcv one two] p show ?thesis by simp
qed

lemma heap_groupBy_frame:
  assumes wf: "well_formed h" and rcv: "this \<in> dom (engines h)"
  shows "returns_new_instance h this (heap_groupBy f this h)
           (map group_cell (toArray (returned (groupBy f (new_QueryBuilder (contents h this))))))"
proof -
  let ?n = "next_ref h"
  from wf rcv obtain a where a: "engines h this = Some a" "a \<in> dom (arrays h)"
    "a < ?n" "this < ?n"
    by (rule receiver_in_heap)
  let ?h2 = "snd (new_instance ?n (snd (new_array [] h)))"
  have c: "contents ?h2 this = contents h this"
    using a by (simp add: contents_def elements_def items_field_def new_array_def new_instance_def)
  let ?G = "map group_cell (foldl (\<lambda>groups item. push_item groups (f item) item) []
                             (contents h this))"
  let ?h' = "h\<lparr>arrays := (arrays h)(?n \<mapsto> [], Suc (Suc ?n) \<mapsto> ?G),
               engines := (engines h)(Suc ?n \<mapsto> Suc (Suc ?n)),
               next_ref := Suc (Suc (Suc ?n))\<rparr>"
  have "heap_groupBy f this h
          = (case new_array [] h of (defaultItems, h1) \<Rightarrow>
               case new_instance defaultItems h1 of (groupQuery, h2) \<Rightarrow>
                 case new_array (map group_cell
                                   (foldl (\<lambda>groups item. push_item groups (f item) item) []
                                      (contents ?h2 this))) h2 of (groups, h3) \<Rightarrow>
                   (groupQuery, h3\<lparr>engines := (engines h3)(groupQuery \<mapsto> groups)\<rparr>))"
    by (simp add: heap_groupBy_def new_array_def new_instance_def)
  then have res: "heap_groupBy f this h = (Suc ?n, ?h')"
    unfolding c by (simp add: new_array_def new_instance_def)
  have v: "toArray (returned (groupBy f (new_QueryBuilder (contents h this))))
             = foldl (\<lambda>groups item. push_item groups (f item) item) [] (contents h this)"
    by (simp add: toArray_def groupBy_def new_QueryBuilder_def)
  have wf': "well_formed ?h'"
    using wf unfolding well_formed_def by (auto simp: less_Suc_eq)
  show ?thesis
    unfolding res v
  proof (rule extension_returns_new_instance [OF wf rcv])
    show "arrays ?h' x = arrays h x" if "x < ?n" for x using that by simp
    show "engines ?h' x = engines h x" if "x < ?n" for x using that by simp
    show "?n \<le> Suc ?n" by simp
    show "engines ?h' (Suc ?n) = Some (Suc (Suc ?n))" by simp
    show "arrays ?h' (Suc (Suc ?n)) = Some ?G" by simp
    show "?n \<le> Suc (Suc ?n)" by simp
    show "well_formed ?h'" by (rule wf')
  qed
qed

lemma heap_join_frame:
  assumes wf: "well_formed h" and rcv: "this \<in> dom (engines h)"
  shows "returns_new_instance h this (heap_join other f g r this h)
           (toArray (returned (join (Array (other_items h other)) f g r
                                (new_QueryBuilder (contents h this)))))"
proof -
  let ?n = "next_ref h"
  let ?m = "foldl (\<lambda>m item. map_set m (g item) item) [] (other_items h other)"
  let ?F = "\<lambda>item. let otherItem = (case map_get ?m (f item) of None \<Rightarrow> Undefined | Some v \<Rightarrow> v)
                    in if truthy otherItem then r item otherItem else Undefined"
  let ?mapped = "map ?F (contents h this)"
  let ?keep = "\<lambda>item. \<not> strict_eq item Undefined"
  let ?h' = "h\<lparr>arrays := (arrays h)(?n \<mapsto> ?mapped, Suc ?n \<mapsto> filter ?keep ?mapped),
               engines := (engines h)(Suc (Suc ?n) \<mapsto> Suc ?n),
               next_ref := Suc (Suc (Suc ?n))\<rparr>"
  have e: "elements (h\<lparr>arrays := (arrays h)(?n \<mapsto> xs), next_ref := Suc ?n\<rparr>) ?n = xs" for xs
    by (simp add: elements_def)
  have res: "heap_join other f g r this h = (Suc (Suc ?n), ?h')"
    by (simp add: heap_join_def array_map_def array_filter_def new_array_def new_instance_def
        e other_items_def contents_def Let_def)
  have v: "toArray (returned (join (Array (other_items h other)) f g r
                                (new_QueryBuilder (contents h this))))
             = filter ?keep ?mapped"
    by (simp add: toArray_def join_def new_QueryBuilder_def Let_def)
  have wf': "well_formed ?h'"
    using wf unfolding well_formed_def by (auto simp: less_Suc_eq)
  show ?thesis
    unfolding res v
  proof (rule extension_returns_new_instance [OF wf rcv])
    show "arrays ?h' x = arrays h x" if "x < ?n" for x using that by simp
    show "engines ?h' x = engines h x" if "x < ?n" for x using that by simp
    show "?n \<le> Suc (Suc ?n)" by simp
    show "engines ?h' (Suc (Suc ?n)) = Some (Suc ?n)" by simp
    show "arrays ?h' (Suc ?n) = Some (filter ?keep ?mapped)" by simp
    show "?n \<le> Suc ?n" by simp
    show "well_formed ?h'" by (rule wf')
  qed
qed

lemma heap_from_assigns:
  "fst (heap_from new_items this h) = this
   \<and> items_field (snd (heap_from new_items this h)) this = new_items
   \<and> contents (snd (heap_from new_items this h)) this = elements h new_items
   \<and> arrays (snd (heap_from new_items this h)) = arrays h
   \<and> next_ref (snd (heap_from new_items this h)) = next_ref h
   \<and> (\<forall>e. e \<noteq> this \<longrightarrow> engines (snd (heap_from new_items this h)) e = engines h e)"
  by (simp add: heap_from_def items_field_def contents_def elements_def)


text \<open>
  The example heaps are well formed, and the results of the calls made on them below.
\<close>

lemma people_heap_well_formed: "well_formed people_heap \<and> 2 \<in> dom (engines people_heap)"
  by (auto simp: well_formed_def people_heap_def split: if_splits)

lemma staff_heap_well_formed: "well_formed staff_heap \<and> 1 \<in> dom (engines staff_heap)"
  by (auto simp: well_formed_def staff_heap_def split: if_splits)

lemma company_heap_well_formed: "well_formed company_heap \<and> 2 \<in> dom (engines company_heap)"
  by (auto simp: well_formed_def company_heap_def split: if_splits)

lemma people_heap_contents:
  "contents people_heap 2 = [bob, charlie, alice] \<and> elements people_heap 1 = [dana, erin]"
  by (simp add: contents_def elements_def items_field_def people_heap_def)

lemma staff_heap_contents: "contents staff_heap 1 = [Item alice, Item bob, Item charlie]"
  by (simp add: contents_def elements_def items_field_def staff_heap_def)

lemma company_heap_contents:
  "contents company_heap 2 = [Object 1 alice, Object 6 frank, Object 2 bob]
   \<and> other_items company_heap (InstanceRef 3) = [hr, engineering, people_dept]"
  by (simp add: contents_def other_items_def elements_def items_field_def company_heap_def)

lemma orderBy_people_by_age:
  "toArray (returned (orderBy example_host ''age'' False (new_QueryBuilder [bob, charlie, alice])))
     = [bob, alice, charlie]"
  by (simp add: toArray_def orderBy_def slice_whole example_host_def new_QueryBuilder_def
      js_sort_def compareFn_def get_def
      js_gt_def js_lt_def num_less_def num_equal_def alice_def bob_def charlie_def)

lemma groupBy_staff_by_department:
  "map group_cell (toArray (returned (groupBy department_of
       (new_QueryBuilder [Item alice, Item bob, Item charlie]))))
     = [Group (Number (Fin 1)) [Item alice, Item charlie], Group (Number (Fin 2)) [Item bob]]"
  by (simp add: toArray_def groupBy_def new_QueryBuilder_def group_cell_def department_of_def
      num_equal_def get_def alice_def bob_def charlie_def)

lemma join_company_departments:
  "toArray (returned (join (Array [hr, engineering, people_dept])
       (property ''departmentId'') (property ''id'')
       (\<lambda>person department. property ''name'' department)
       (new_QueryBuilder [Object 1 alice, Object 6 frank, Object 2 bob])))
     = [Str ''People'', Str ''Engineering'']"
  by (simp add: join_def toArray_def new_QueryBuilder_def map_set_def canonical_key_def
      same_value_zero_def num_equal_def get_def property_def hr_def engineering_def people_dept_def
      alice_def bob_def frank_def Let_def)

text \<open>
  \<open>sort\<close> is in place: called on \<open>this.items\<close> itself it would reorder the array of the
  receiver. \<open>orderBy\<close> calls it on the copy made by \<open>slice()\<close>.
\<close>

lemma sort_without_the_copy_reorders_the_receiver:
  "contents (snd (array_sort_in_place (array_sort example_host (compareFn example_host ''age'' False))
                    (items_field people_heap 2) people_heap)) 2
     = [bob, alice, charlie]"
  by (simp add: array_sort_in_place_def contents_def elements_def items_field_def people_heap_def
      example_host_def js_sort_def compareFn_def get_def
      js_gt_def js_lt_def num_less_def num_equal_def alice_def bob_def charlie_def)

text \<open>
  C5. \<open>from(items)\<close> returns the receiver itself and stores the reference \<open>items\<close> in its
  \<open>items\<close> field, so that the receiver wraps the elements of that array afterwards; it
  writes no array and no other instance. Each of \<open>select\<close>, \<open>where\<close>, \<open>orderBy\<close>,
  \<open>skip\<close>, \<open>take\<close>, \<open>page\<close>, \<open>groupBy\<close> and \<open>join\<close>, called on an instance of a
  well-formed heap, returns a reference that is not the receiver and did not exist before
  the call, to an instance that wraps the operator's result in an array that did not exist
  before the call either; every array and every instance that existed before the call is
  as it was, so the receiver wraps the same sequence and can be queried again.
\<close>

theorem from_is_the_only_mutating_operator:
  assumes "well_formed h" and "this \<in> dom (engines h)"
    and "well_formed hg" and "tg \<in> dom (engines hg)"
    and "well_formed hj" and "tj \<in> dom (engines hj)"
  shows
    "(fst (heap_from new_items this h) = this
        \<and> items_field (snd (heap_from new_items this h)) this = new_items
        \<and> contents (snd (heap_from new_items this h)) this = elements h new_items
        \<and> arrays (snd (heap_from new_items this h)) = arrays h
        \<and> next_ref (snd (heap_from new_items this h)) = next_ref h
        \<and> (\<forall>e. e \<noteq> this \<longrightarrow> engines (snd (heap_from new_items this h)) e = engines h e))
     \<and> returns_new_instance h this (heap_select ks this h)
          (toArray (returned (select ks (new_QueryBuilder (contents h this)))))
     \<and> returns_new_instance h this (heap_where P this h)
          (toArray (returned (where_op P (new_QueryBuilder (contents h this)))))
     \<and> returns_new_instance h this (heap_orderBy hst k descending this h)
          (toArray (returned (orderBy hst k descending (new_QueryBuilder (contents h this)))))
     \<and> returns_new_instance h this (heap_skip n this h)
          (toArray (returned (skip n (new_QueryBuilder (contents h this)))))
     \<and> returns_new_instance h this (heap_take m this h)
          (toArray (returned (take_op m (new_QueryBuilder (contents h this)))))
     \<and> returns_new_instance h this (heap_page pageIndex pageSize this h)
          (toArray (returned (page pageIndex pageSize (new_QueryBuilder (contents h this)))))
     \<and> returns_new_instance hg tg (heap_groupBy f tg hg)
          (map group_cell (toArray (returned (groupBy f (new_QueryBuilder (contents hg tg))))))
     \<and> returns_new_instance hj tj (heap_join other keySelector otherKeySelector resultSelector tj hj)
          (toArray (returned (join (Array (other_items hj other)) keySelector otherKeySelector
                                resultSelector (new_QueryBuilder (contents hj tj)))))"
  using heap_from_assigns [of new_items this h]
    heap_select_frame [OF assms(1,2)] heap_where_frame [OF assms(1,2)]
    heap_orderBy_frame [OF assms(1,2)] heap_skip_frame [OF assms(1,2)]
    heap_take_frame [OF assms(1,2)] heap_page_frame [OF assms(1,2)]
    heap_groupBy_frame [OF assms(3,4)] heap_join_frame [OF assms(5,6)]
  by blast

text \<open>
  On the example heaps: \<open>from\<close> makes instance 2 wrap the two others; \<open>orderBy\<close> returns
  a new instance of the people by age and instance 2 still wraps them in their first
  order; \<open>groupBy\<close> and \<open>join\<close> return new instances of the groups and of the joined
  names.
\<close>

theorem from_is_the_only_mutating_operator_witness:
  "well_formed people_heap \<and> 2 \<in> dom (engines people_heap)
   \<and> well_formed staff_heap \<and> 1 \<in> dom (engines staff_heap)
   \<and> well_formed company_heap \<and> 2 \<in> dom (engines company_heap)
   \<and> contents people_heap 2 = [bob, charlie, alice]
   \<and> fst (heap_from 1 2 people_heap) = 2
   \<and> contents (snd (heap_from 1 2 people_heap)) 2 = [dana, erin]
   \<and> returns_new_instance people_heap 2 (heap_orderBy example_host ''age'' False 2 people_heap)
        [bob, alice, charlie]
   \<and> contents (snd (heap_orderBy example_host ''age'' False 2 people_heap)) 2
        = [bob, charlie, alice]
   \<and> returns_new_instance staff_heap 1 (heap_groupBy department_of 1 staff_heap)
        [Group (Number (Fin 1)) [Item alice, Item charlie], Group (Number (Fin 2)) [Item bob]]
   \<and> returns_new_instance company_heap 2
        (heap_join (InstanceRef 3) (property ''departmentId'') (property ''id'')
           (\<lambda>person department. property ''name'' department) 2 company_heap)
        [Str ''People'', Str ''Engineering'']"
proof -
  note w = people_heap_well_formed staff_heap_well_formed company_heap_well_formed
  note t = from_is_the_only_mutating_operator
      [where h = people_heap and this = 2 and hg = staff_heap and tg = 1
         and hj = company_heap and tj = 2 and new_items = 1
         and hst = example_host and k = "''age''" and descending = False
         and f = department_of and other = "InstanceRef 3"
         and keySelector = "property ''departmentId''" and otherKeySelector = "property ''id''"
         and resultSelector = "\<lambda>person department. property ''name'' department"]
  from t w have f: "fst (heap_from 1 2 people_heap) = 2"
    "contents (snd (heap_from 1 2 people_heap)) 2 = elements people_heap 1"
    by blast+
  from t w have o: "returns_new_instance people_heap 2
        (heap_orderBy example_host ''age'' False 2 people_heap)
        (toArray (returned (orderBy example_host ''age'' False
                              (new_QueryBuilder (contents people_heap 2)))))"
    by blast
  from t w have g: "returns_new_instance staff_heap 1 (heap_groupBy department_of 1 staff_heap)
        (map group_cell (toArray (returned (groupBy department_of
                                              (new_QueryBuilder (contents staff_heap 1))))))"
    by blast
  from t w have j: "returns_new_instance company_heap 2
        (heap_join (InstanceRef 3) (property ''departmentId'') (property ''id'')
           (\<lambda>person department. property ''name'' department) 2 company_heap)
        (toArray (returned (join (Array (other_items company_heap (InstanceRef 3)))
           (property ''departmentId'') (property ''id'')
           (\<lambda>person department. property ''name'' department)
           (new_QueryBuilder (contents company_heap 2)))))"
    by blast
  from o have o': "returns_new_instance people_heap 2
        (heap_orderBy example_host ''age'' False 2 people_heap) [bob, alice, charlie]"
    by (simp only: people_heap_contents orderBy_people_by_age)
  then have o'': "contents (snd (heap_orderBy example_host ''age'' False 2 people_heap)) 2
        = [bob, charlie, alice]"
    by (simp add: returns_new_instance_def split_beta people_heap_contents)
  from g have g': "returns_new_instance staff_heap 1 (heap_groupBy department_of 1 staff_heap)
        [Group (Number (Fin 1)) [Item alice, Item charlie], Group (Number (Fin 2)) [Item bob]]"
    by (simp only: staff_heap_contents groupBy_staff_by_department)
  from j have j': "returns_new_instance company_heap 2
        (heap_join (InstanceRef 3) (property ''departmentId'') (property ''id'')
           (\<lambda>person department. property ''name'' department) 2 company_heap)
        [Str ''People'', Str ''Engineering'']"
    by (simp only: company_heap_contents join_company_departments)
  from f have f': "fst (heap_from 1 2 people_heap) = 2"
    "contents (snd (heap_from 1 2 people_heap)) 2 = [dana, erin]"
    by (simp_all only: people_heap_contents)
  from w f' o' o'' g' j' people_heap_contents show ?thesis by blast
qed


section \<open>Sum and average\<close>



section \<open>The host's equality and order\<close>

lemma strict_eq_sym: "strict_eq a b = strict_eq b a"
  by (cases a; cases b; auto simp: num_equal_def)

lemma strict_eq_trans: "strict_eq a b \<Longrightarrow> strict_eq b c \<Longrightarrow> strict_eq a c"
  by (cases a; cases b; simp; cases c; simp add: num_equal_def)

lemma total_cases:
  assumes "totally_ordered h vs" "a \<in> set vs" "b \<in> set vs"
  shows "(js_lt h a b \<and> \<not> strict_eq a b \<and> \<not> js_lt h b a)
        \<or> (\<not> js_lt h a b \<and> strict_eq a b \<and> \<not> js_lt h b a)
        \<or> (\<not> js_lt h a b \<and> \<not> strict_eq a b \<and> js_lt h b a)"
  using assms unfolding totally_ordered_def js_gt_def by blast

lemma total_irrefl:
  assumes "totally_ordered h vs" "a \<in> set vs"
  shows "\<not> js_lt h a a"
  using total_cases [OF assms(1) assms(2) assms(2)] by blast

lemma total_trans:
  assumes "totally_ordered h vs" "a \<in> set vs" "b \<in> set vs" "c \<in> set vs"
    "js_lt h a b" "js_lt h b c"
  shows "js_lt h a c"
  using assms unfolding totally_ordered_def by blast

lemma total_negtrans:
  assumes t: "totally_ordered h vs" and a: "a \<in> set vs" and b: "b \<in> set vs" and c: "c \<in> set vs"
    and ac: "js_lt h a c"
  shows "js_lt h a b \<or> js_lt h b c"
proof (rule ccontr)
  assume n: "\<not> (js_lt h a b \<or> js_lt h b c)"
  from total_cases [OF t a b] n have ab: "strict_eq a b \<or> js_lt h b a" by blast
  from total_cases [OF t b c] n have bc: "strict_eq b c \<or> js_lt h c b" by blast
  from total_cases [OF t a c] ac have nac: "\<not> strict_eq a c" "\<not> js_lt h c a" by blast+
  show False
  proof (cases "js_lt h b a")
    case True
    with ac have "js_lt h b c" using total_trans [OF t b a c] by blast
    with n show False by blast
  next
    case False
    with ab have eab: "strict_eq a b" by blast
    show False
    proof (cases "js_lt h c b")
      case True
      with ac have "js_lt h a b" using total_trans [OF t a c b] by blast
      with n show False by blast
    next
      case False
      with bc have "strict_eq b c" by blast
      with eab have "strict_eq a c" using strict_eq_trans [of a b c] by blast
      with nac show False by blast
    qed
  qed
qed

lemma finite_numbers_totally_ordered:
  assumes "\<And>v. v \<in> set vs \<Longrightarrow> \<exists>n. v = Number n \<and> n \<noteq> NaN"
  shows "totally_ordered h vs"
proof -
  have tri: "(js_lt h a b \<and> \<not> strict_eq a b \<and> \<not> js_gt h a b)
        \<or> (\<not> js_lt h a b \<and> strict_eq a b \<and> \<not> js_gt h a b)
        \<or> (\<not> js_lt h a b \<and> \<not> strict_eq a b \<and> js_gt h a b)"
    if "a \<in> set vs" "b \<in> set vs" for a b
  proof -
    from assms that obtain m n where "a = Number m" "m \<noteq> NaN" "b = Number n" "n \<noteq> NaN"
      by blast
    then show ?thesis
      by (cases m; cases n) (auto simp: js_lt_def js_gt_def num_less_def num_equal_def)
  qed
  have tr: "js_lt h a c" if "a \<in> set vs" "b \<in> set vs" "c \<in> set vs" "js_lt h a b" "js_lt h b c"
    for a b c
  proof -
    from assms that obtain l m n where "a = Number l" "b = Number m" "c = Number n"
      by blast
    with that(4,5) show ?thesis
      by (cases l; cases m; cases n) (auto simp: js_lt_def num_less_def)
  qed
  show ?thesis unfolding totally_ordered_def using tri tr by blast
qed

lemma extremum_fold:
  fixes R :: "'a \<Rightarrow> 'a \<Rightarrow> bool"
  assumes irr: "\<And>a. a \<in> S \<Longrightarrow> \<not> R a a"
    and tr: "\<And>a b c. a \<in> S \<Longrightarrow> b \<in> S \<Longrightarrow> c \<in> S \<Longrightarrow> R a b \<Longrightarrow> R b c \<Longrightarrow> R a c"
    and ntr: "\<And>a b c. a \<in> S \<Longrightarrow> b \<in> S \<Longrightarrow> c \<in> S \<Longrightarrow> R a c \<Longrightarrow> R a b \<or> R b c"
  shows "xs \<noteq> [] \<Longrightarrow> set xs \<subseteq> S \<Longrightarrow>
         \<exists>i<length xs.
           foldl (\<lambda>acc item. case acc of None \<Rightarrow> Some item
                              | Some m \<Rightarrow> if R item m then Some item else Some m) None xs
             = Some (xs ! i)
           \<and> (\<forall>j<length xs. \<not> R (xs ! j) (xs ! i))
           \<and> (\<forall>j<i. R (xs ! i) (xs ! j))"
proof (induction xs rule: rev_induct)
  case Nil
  then show ?case by simp
next
  case (snoc y xs)
  let ?step = "\<lambda>acc item. case acc of None \<Rightarrow> Some item
                              | Some m \<Rightarrow> if R item m then Some item else Some m"
  have ymem: "y \<in> S" using snoc.prems(2) by simp
  have mem: "\<And>j. j < length xs \<Longrightarrow> xs ! j \<in> S" using snoc.prems(2) by (simp add: subset_iff)
  show ?case
  proof (cases "xs = []")
    case True
    have "\<not> R y y" using irr [OF ymem] .
    with True show ?thesis by (intro exI [of _ 0]) simp
  next
    case False
    have sub: "set xs \<subseteq> S" using snoc.prems(2) by simp
    from snoc.IH [OF False sub]
    obtain i where i: "i < length xs" "foldl ?step None xs = Some (xs ! i)"
      "\<forall>j<length xs. \<not> R (xs ! j) (xs ! i)" "\<forall>j<i. R (xs ! i) (xs ! j)"
      by blast
    show ?thesis
    proof (cases "R y (xs ! i)")
      case True
      have f: "foldl ?step None (xs @ [y]) = Some ((xs @ [y]) ! length xs)"
        using i(2) True by simp
      have a: "\<not> R ((xs @ [y]) ! j) y" if "j < length (xs @ [y])" for j
      proof (cases "j < length xs")
        case jl: True
        show ?thesis
        proof
          assume "R ((xs @ [y]) ! j) y"
          then have "R (xs ! j) y" using jl by (simp add: nth_append)
          then have "R (xs ! j) (xs ! i)"
            using tr [OF mem [OF jl] ymem mem [OF i(1)]] True by blast
          with i(3) jl show False by blast
        qed
      next
        case False
        with that have "j = length xs" by simp
        then show ?thesis using irr [OF ymem] by simp
      qed
      have b: "R y ((xs @ [y]) ! j)" if "j < length xs" for j
      proof -
        have "R y (xs ! j) \<or> R (xs ! j) (xs ! i)"
          using ntr [OF ymem mem [OF that] mem [OF i(1)] True] .
        with i(3) that show ?thesis by (auto simp: nth_append)
      qed
      have l: "length xs < length (xs @ [y])" by simp
      have y: "(xs @ [y]) ! length xs = y" by simp
      show ?thesis
      proof (intro exI [of _ "length xs"] conjI allI impI)
        show "length xs < length (xs @ [y])" by (rule l)
        show "foldl ?step None (xs @ [y]) = Some ((xs @ [y]) ! length xs)" by (rule f)
        show "\<not> R ((xs @ [y]) ! j) ((xs @ [y]) ! length xs)" if "j < length (xs @ [y])" for j
          unfolding y using a [OF that] .
        show "R ((xs @ [y]) ! length xs) ((xs @ [y]) ! j)" if "j < length xs" for j
          unfolding y using b [OF that] .
      qed
    next
      case False
      have f: "foldl ?step None (xs @ [y]) = Some ((xs @ [y]) ! i)"
        using i(1,2) False by (simp add: nth_append)
      have a: "\<not> R ((xs @ [y]) ! j) ((xs @ [y]) ! i)" if "j < length (xs @ [y])" for j
      proof (cases "j < length xs")
        case True
        with i(1,3) show ?thesis by (simp add: nth_append)
      next
        case nl: False
        with that have "j = length xs" by simp
        with False i(1) show ?thesis by (simp add: nth_append)
      qed
      have b: "R ((xs @ [y]) ! i) ((xs @ [y]) ! j)" if "j < i" for j
        using i(1,4) that by (simp add: nth_append)
      have l: "i < length (xs @ [y])" using i(1) by simp
      show ?thesis
      proof (intro exI [of _ i] conjI allI impI)
        show "i < length (xs @ [y])" by (rule l)
        show "foldl ?step None (xs @ [y]) = Some ((xs @ [y]) ! i)" by (rule f)
        show "\<not> R ((xs @ [y]) ! j) ((xs @ [y]) ! i)" if "j < length (xs @ [y])" for j
          using a [OF that] .
        show "R ((xs @ [y]) ! i) ((xs @ [y]) ! j)" if "j < i" for j
          using b [OF that] .
      qed
    qed
  qed
qed


lemma extremum_member:
  "xs \<noteq> [] \<Longrightarrow>
     \<exists>m \<in> set xs.
       foldl (\<lambda>acc item. case acc of None \<Rightarrow> Some item
                          | Some m \<Rightarrow> if R item m then Some item else Some m) None xs = Some m"
proof (induction xs rule: rev_induct)
  case Nil
  then show ?case by simp
next
  case (snoc y xs)
  show ?case
  proof (cases "xs = []")
    case True
    then show ?thesis by simp
  next
    case False
    from snoc.IH [OF False] obtain m where m: "m \<in> set xs"
      "foldl (\<lambda>acc item. case acc of None \<Rightarrow> Some item
                          | Some m \<Rightarrow> if R item m then Some item else Some m) None xs = Some m"
      by blast
    show ?thesis
    proof (cases "R y m")
      case True
      with m(2) show ?thesis by simp
    next
      case False
      with m show ?thesis by simp
    qed
  qed
qed

lemma max_fold:
  assumes ne: "xs \<noteq> []" and t: "totally_ordered h (map (\<lambda>x. get x k) xs)"
  shows "\<exists>i<length xs.
           max_op h k (new_QueryBuilder xs) = Fulfilled (Some (xs ! i))
           \<and> (\<forall>j<length xs. \<not> js_gt h (get (xs ! j) k) (get (xs ! i) k))
           \<and> (\<forall>j<i. js_lt h (get (xs ! j) k) (get (xs ! i) k))"
proof -
  let ?R = "\<lambda>item m. js_gt h (get item k) (get m k)"
  have v: "get a k \<in> set (map (\<lambda>x. get x k) xs)" if "a \<in> set xs" for a
    using that by simp
  have irr: "\<not> ?R a a" if "a \<in> set xs" for a
    unfolding js_gt_def using total_irrefl [OF t v [OF that]] .
  have tr: "?R a c" if "a \<in> set xs" "b \<in> set xs" "c \<in> set xs" "?R a b" "?R b c" for a b c
    unfolding js_gt_def
    using total_trans [OF t v [OF that(3)] v [OF that(2)] v [OF that(1)]] that(4,5)
    unfolding js_gt_def by blast
  have ntr: "?R a b \<or> ?R b c" if "a \<in> set xs" "b \<in> set xs" "c \<in> set xs" "?R a c" for a b c
    using total_negtrans [OF t v [OF that(3)] v [OF that(2)] v [OF that(1)]] that(4)
    unfolding js_gt_def by blast
  have sub: "set xs \<subseteq> set xs" by simp
  from extremum_fold [of "set xs" ?R xs, OF irr tr ntr ne sub]
  show ?thesis
    unfolding max_op_def new_QueryBuilder_def js_gt_def by simp
qed

lemma min_fold:
  assumes ne: "xs \<noteq> []" and t: "totally_ordered h (map (\<lambda>x. get x k) xs)"
  shows "\<exists>i<length xs.
           min_op h k (new_QueryBuilder xs) = Fulfilled (Some (xs ! i))
           \<and> (\<forall>j<length xs. \<not> js_lt h (get (xs ! j) k) (get (xs ! i) k))
           \<and> (\<forall>j<i. js_gt h (get (xs ! j) k) (get (xs ! i) k))"
proof -
  let ?R = "\<lambda>item m. js_lt h (get item k) (get m k)"
  have v: "get a k \<in> set (map (\<lambda>x. get x k) xs)" if "a \<in> set xs" for a
    using that by simp
  have irr: "\<not> ?R a a" if "a \<in> set xs" for a
    using total_irrefl [OF t v [OF that]] .
  have tr: "?R a c" if "a \<in> set xs" "b \<in> set xs" "c \<in> set xs" "?R a b" "?R b c" for a b c
    using total_trans [OF t v [OF that(1)] v [OF that(2)] v [OF that(3)]] that(4,5) by blast
  have ntr: "?R a b \<or> ?R b c" if "a \<in> set xs" "b \<in> set xs" "c \<in> set xs" "?R a c" for a b c
    using total_negtrans [OF t v [OF that(1)] v [OF that(2)] v [OF that(3)]] that(4) by blast
  have sub: "set xs \<subseteq> set xs" by simp
  from extremum_fold [of "set xs" ?R xs, OF irr tr ntr ne sub]
  show ?thesis
    unfolding min_op_def new_QueryBuilder_def js_gt_def by simp
qed


section \<open>Maximum, minimum, first and last\<close>

lemma builder_eq: "new_QueryBuilder (items this) = this"
  by (simp add: new_QueryBuilder_def)

lemma people_ages_totally_ordered:
  "set ps \<subseteq> {alice, bob, charlie, dana, erin}
     \<Longrightarrow> totally_ordered h (map (\<lambda>x. get x ''age'') ps)"
  by (rule finite_numbers_totally_ordered)
     (auto simp: get_def alice_def bob_def charlie_def dana_def erin_def)

text \<open>
  C9, as stated, fails in its second half. It promises, for every non-empty sequence, the
  item holding the maximum (minimum) value. The reduce keeps its candidate unless a later
  value is \<open>>\<close> (\<open><\<close>) the candidate's, and nothing is \<open>>\<close> or \<open><\<close> an \<open>undefined\<close> or a
  \<open>NaN\<close>. In the sequence below the first record has no age: it is returned both as the
  maximum and as the minimum, although 35 is greater than 25 and neither is \<open><\<close>, \<open>>\<close> or
  \<open>===\<close> the value of the returned record.
\<close>

theorem max_and_min_of_a_missing_field:
  "max_op example_host ''age'' (new_QueryBuilder [unrated_a, charlie, bob]) = Fulfilled (Some unrated_a)
   \<and> min_op example_host ''age'' (new_QueryBuilder [unrated_a, charlie, bob]) = Fulfilled (Some unrated_a)
   \<and> js_gt example_host (get charlie ''age'') (get bob ''age'')
   \<and> \<not> (\<forall>y \<in> set [unrated_a, charlie, bob].
           js_lt example_host (get y ''age'') (get unrated_a ''age'')
           \<or> strict_eq (get y ''age'') (get unrated_a ''age''))
   \<and> \<not> (\<forall>y \<in> set [unrated_a, charlie, bob].
           js_gt example_host (get y ''age'') (get unrated_a ''age'')
           \<or> strict_eq (get y ''age'') (get unrated_a ''age''))"
  by (simp add: max_op_def min_op_def new_QueryBuilder_def js_gt_def js_lt_def num_less_def
      get_def unrated_a_def charlie_def bob_def)

text \<open>
  C9, amended. On an empty sequence \<open>max(key)\<close>, \<open>min(key)\<close>, \<open>first()\<close> and \<open>last()\<close> are
  fulfilled with the absent value (\<open>null\<close> for \<open>max\<close> and \<open>min\<close>, \<open>undefined\<close> for \<open>first\<close>
  and \<open>last\<close>), not rejected. On a non-empty sequence \<open>max(key)\<close> and \<open>min(key)\<close> return
  an item of the sequence, the whole item; when the values of the field are totally
  ordered by \<open><\<close>, \<open>>\<close> and \<open>===\<close>, every item's value is \<open><\<close> or \<open>===\<close> (for \<open>min\<close>: \<open>>\<close>
  or \<open>===\<close>) the returned item's.
\<close>

theorem empty_aggregates_return_a_sentinel:
  "max_op h k (new_QueryBuilder []) = Fulfilled None
   \<and> min_op h k (new_QueryBuilder []) = Fulfilled None
   \<and> first (new_QueryBuilder []) = Fulfilled None
   \<and> last_op (new_QueryBuilder []) = Fulfilled None
   \<and> (items this \<noteq> [] \<longrightarrow>
        (\<exists>m \<in> set (items this).
            max_op h k this = Fulfilled (Some m)
            \<and> (totally_ordered h (map (\<lambda>x. get x k) (items this)) \<longrightarrow>
                 (\<forall>y \<in> set (items this).
                    js_lt h (get y k) (get m k) \<or> strict_eq (get y k) (get m k))))
        \<and> (\<exists>m \<in> set (items this).
            min_op h k this = Fulfilled (Some m)
            \<and> (totally_ordered h (map (\<lambda>x. get x k) (items this)) \<longrightarrow>
                 (\<forall>y \<in> set (items this).
                    js_gt h (get y k) (get m k) \<or> strict_eq (get y k) (get m k)))))"
proof -
  have e: "max_op h k (new_QueryBuilder []) = Fulfilled None"
    "min_op h k (new_QueryBuilder []) = Fulfilled None"
    "first (new_QueryBuilder []) = Fulfilled None"
    "last_op (new_QueryBuilder []) = Fulfilled None"
    by (simp_all add: max_op_def min_op_def first_def last_op_def index_def new_QueryBuilder_def)
  have mx: "\<exists>m \<in> set (items this).
            max_op h k this = Fulfilled (Some m)
            \<and> (totally_ordered h (map (\<lambda>x. get x k) (items this)) \<longrightarrow>
                 (\<forall>y \<in> set (items this).
                    js_lt h (get y k) (get m k) \<or> strict_eq (get y k) (get m k)))"
    if ne: "items this \<noteq> []"
  proof (cases "totally_ordered h (map (\<lambda>x. get x k) (items this))")
    case True
    from max_fold [OF ne True] obtain i where i: "i < length (items this)"
      "max_op h k this = Fulfilled (Some (items this ! i))"
      "\<forall>j<length (items this). \<not> js_gt h (get (items this ! j) k) (get (items this ! i) k)"
      unfolding builder_eq by blast
    have "js_lt h (get y k) (get (items this ! i) k) \<or> strict_eq (get y k) (get (items this ! i) k)"
      if y: "y \<in> set (items this)" for y
    proof -
      from y i(3) have "\<not> js_gt h (get y k) (get (items this ! i) k)"
        by (auto simp: in_set_conv_nth)
      moreover have "get y k \<in> set (map (\<lambda>x. get x k) (items this))"
        "get (items this ! i) k \<in> set (map (\<lambda>x. get x k) (items this))"
        using y i(1) by simp_all
      ultimately show ?thesis using total_cases [OF True] unfolding js_gt_def by blast
    qed
    with i(1,2) show ?thesis by (intro bexI [of _ "items this ! i"]) simp_all
  next
    case False
    from extremum_member [OF ne, of "\<lambda>item m. js_gt h (get item k) (get m k)"] False
    show ?thesis unfolding max_op_def by auto
  qed
  have mn: "\<exists>m \<in> set (items this).
            min_op h k this = Fulfilled (Some m)
            \<and> (totally_ordered h (map (\<lambda>x. get x k) (items this)) \<longrightarrow>
                 (\<forall>y \<in> set (items this).
                    js_gt h (get y k) (get m k) \<or> strict_eq (get y k) (get m k)))"
    if ne: "items this \<noteq> []"
  proof (cases "totally_ordered h (map (\<lambda>x. get x k) (items this))")
    case True
    from min_fold [OF ne True] obtain i where i: "i < length (items this)"
      "min_op h k this = Fulfilled (Some (items this ! i))"
      "\<forall>j<length (items this). \<not> js_lt h (get (items this ! j) k) (get (items this ! i) k)"
      unfolding builder_eq by blast
    have "js_gt h (get y k) (get (items this ! i) k) \<or> strict_eq (get y k) (get (items this ! i) k)"
      if y: "y \<in> set (items this)" for y
    proof -
      from y i(3) have "\<not> js_lt h (get y k) (get (items this ! i) k)"
        by (auto simp: in_set_conv_nth)
      moreover have "get y k \<in> set (map (\<lambda>x. get x k) (items this))"
        "get (items this ! i) k \<in> set (map (\<lambda>x. get x k) (items this))"
        using y i(1) by simp_all
      ultimately show ?thesis using total_cases [OF True] unfolding js_gt_def by blast
    qed
    with i(1,2) show ?thesis by (intro bexI [of _ "items this ! i"]) simp_all
  next
    case False
    from extremum_member [OF ne, of "\<lambda>item m. js_lt h (get item k) (get m k)"] False
    show ?thesis unfolding min_op_def by auto
  qed
  from e mx mn show ?thesis by blast
qed

text \<open>The repository's own test: the oldest of the three is Charlie, the youngest Bob.\<close>

theorem empty_aggregates_return_a_sentinel_witness:
  "max_op example_host ''age'' (new_QueryBuilder [alice, bob, charlie]) = Fulfilled (Some charlie)
   \<and> min_op example_host ''age'' (new_QueryBuilder [alice, bob, charlie]) = Fulfilled (Some bob)
   \<and> totally_ordered example_host (map (\<lambda>x. get x ''age'') [alice, bob, charlie])
   \<and> (\<exists>m \<in> set [alice, bob, charlie].
         max_op example_host ''age'' (new_QueryBuilder [alice, bob, charlie]) = Fulfilled (Some m)
         \<and> (\<forall>y \<in> set [alice, bob, charlie].
               js_lt example_host (get y ''age'') (get m ''age'')
               \<or> strict_eq (get y ''age'') (get m ''age'')))"
proof -
  let ?q = "new_QueryBuilder [alice, bob, charlie]"
  have it: "items ?q = [alice, bob, charlie]" by (simp add: new_QueryBuilder_def)
  have t: "totally_ordered example_host (map (\<lambda>x. get x ''age'') (items ?q))"
    unfolding it by (rule people_ages_totally_ordered) simp
  have ne: "items ?q \<noteq> []" unfolding it by simp
  have mx: "max_op example_host ''age'' ?q = Fulfilled (Some charlie)"
    by (simp add: max_op_def new_QueryBuilder_def js_gt_def js_lt_def num_less_def get_def
        alice_def bob_def charlie_def)
  have mn: "min_op example_host ''age'' ?q = Fulfilled (Some bob)"
    by (simp add: min_op_def new_QueryBuilder_def js_gt_def js_lt_def num_less_def get_def
        alice_def bob_def charlie_def)
  from empty_aggregates_return_a_sentinel [of example_host "''age''" ?q] ne t
  have "\<exists>m \<in> set (items ?q).
         max_op example_host ''age'' ?q = Fulfilled (Some m)
         \<and> (\<forall>y \<in> set (items ?q).
               js_lt example_host (get y ''age'') (get m ''age'')
               \<or> strict_eq (get y ''age'') (get m ''age''))"
    by blast
  with mx mn t show ?thesis unfolding it by blast
qed

text \<open>
  C10. On a non-empty sequence whose values at the field are totally ordered, \<open>max(key)\<close>
  returns the earliest item that attains the maximum: no item's value is greater than its
  value and every item before it has a strictly smaller value. \<open>min(key)\<close> likewise
  returns the earliest item that attains the minimum.
\<close>

theorem extremal_ties_go_to_the_earliest_item:
  assumes ne: "items this \<noteq> []"
    and t: "totally_ordered h (map (\<lambda>x. get x k) (items this))"
  shows "(\<exists>i<length (items this).
            max_op h k this = Fulfilled (Some (items this ! i))
            \<and> (\<forall>j<length (items this). \<not> js_gt h (get (items this ! j) k) (get (items this ! i) k))
            \<and> (\<forall>j<i. js_lt h (get (items this ! j) k) (get (items this ! i) k)))
       \<and> (\<exists>i<length (items this).
            min_op h k this = Fulfilled (Some (items this ! i))
            \<and> (\<forall>j<length (items this). \<not> js_lt h (get (items this ! j) k) (get (items this ! i) k))
            \<and> (\<forall>j<i. js_gt h (get (items this ! j) k) (get (items this ! i) k)))"
  using max_fold [OF ne t] min_fold [OF ne t] unfolding builder_eq by (rule conjI)

text \<open>Charlie and Dana are both 35, Bob and Erin both 25: the earlier of each pair is returned.\<close>

theorem extremal_ties_go_to_the_earliest_item_witness:
  "totally_ordered example_host (map (\<lambda>x. get x ''age'') [alice, charlie, bob, dana, erin])
   \<and> max_op example_host ''age'' (new_QueryBuilder [alice, charlie, bob, dana, erin])
       = Fulfilled (Some charlie)
   \<and> min_op example_host ''age'' (new_QueryBuilder [alice, charlie, bob, dana, erin])
       = Fulfilled (Some bob)
   \<and> (\<exists>i<5. max_op example_host ''age'' (new_QueryBuilder [alice, charlie, bob, dana, erin])
              = Fulfilled (Some ([alice, charlie, bob, dana, erin] ! i))
            \<and> (\<forall>j<i. js_lt example_host (get ([alice, charlie, bob, dana, erin] ! j) ''age'')
                                        (get ([alice, charlie, bob, dana, erin] ! i) ''age'')))"
proof -
  let ?xs = "[alice, charlie, bob, dana, erin]"
  let ?q = "new_QueryBuilder ?xs"
  have it: "items ?q = ?xs" by (simp add: new_QueryBuilder_def)
  have len: "length ?xs = 5" by simp
  have t: "totally_ordered example_host (map (\<lambda>x. get x ''age'') (items ?q))"
    unfolding it by (rule people_ages_totally_ordered) simp
  have ne: "items ?q \<noteq> []" unfolding it by simp
  have mx: "max_op example_host ''age'' ?q = Fulfilled (Some charlie)"
    by (simp add: max_op_def new_QueryBuilder_def js_gt_def js_lt_def num_less_def get_def
        alice_def bob_def charlie_def dana_def erin_def)
  have mn: "min_op example_host ''age'' ?q = Fulfilled (Some bob)"
    by (simp add: min_op_def new_QueryBuilder_def js_gt_def js_lt_def num_less_def get_def
        alice_def bob_def charlie_def dana_def erin_def)
  from extremal_ties_go_to_the_earliest_item [OF ne t]
  have "\<exists>i<length ?xs. max_op example_host ''age'' ?q = Fulfilled (Some (?xs ! i))
            \<and> (\<forall>j<i. js_lt example_host (get (?xs ! j) ''age'') (get (?xs ! i) ''age''))"
    unfolding it by blast
  then have "\<exists>i<5. max_op example_host ''age'' ?q = Fulfilled (Some (?xs ! i))
            \<and> (\<forall>j<i. js_lt example_host (get (?xs ! j) ''age'') (get (?xs ! i) ''age''))"
    unfolding len .
  with t mx mn show ?thesis unfolding it by blast
qed

section \<open>Ordering\<close>

lemma mset_insert_sorted: "mset (insert_sorted cmp x ys) = add_mset x (mset ys)"
  by (induction ys) simp_all

lemma mset_js_sort: "mset (js_sort cmp xs) = mset xs"
  unfolding js_sort_def by (induction xs) (simp_all add: mset_insert_sorted)

lemma set_insert_sorted: "set (insert_sorted cmp x ys) = insert x (set ys)"
  using mset_insert_sorted [of cmp x ys] by (metis set_mset_add_mset_insert set_mset_mset)

lemma set_js_sort: "set (js_sort cmp xs) = set xs"
  using mset_js_sort [of cmp xs] by (metis set_mset_mset)

lemma sorted_insert_sorted:
  assumes total: "\<And>a b. a \<in> S \<Longrightarrow> b \<in> S \<Longrightarrow> cmp a b \<le> 0 \<or> cmp b a \<le> 0"
    and trans: "\<And>a b c. a \<in> S \<Longrightarrow> b \<in> S \<Longrightarrow> c \<in> S \<Longrightarrow> cmp a b \<le> 0 \<Longrightarrow> cmp b c \<le> 0 \<Longrightarrow> cmp a c \<le> 0"
  shows "x \<in> S \<Longrightarrow> set ys \<subseteq> S \<Longrightarrow> sorted_wrt (\<lambda>a b. cmp a b \<le> 0) ys
         \<Longrightarrow> sorted_wrt (\<lambda>a b. cmp a b \<le> 0) (insert_sorted cmp x ys)"
proof (induction ys)
  case Nil
  then show ?case by simp
next
  case (Cons y ys)
  have y: "y \<in> S" and ys: "set ys \<subseteq> S" using Cons.prems(2) by simp_all
  have sy: "\<forall>z \<in> set ys. cmp y z \<le> 0" and sys: "sorted_wrt (\<lambda>a b. cmp a b \<le> 0) ys"
    using Cons.prems(3) by simp_all
  show ?case
  proof (cases "cmp x y \<le> 0")
    case True
    have "\<forall>z \<in> set ys. cmp x z \<le> 0"
    proof
      fix z assume z: "z \<in> set ys"
      with ys have "z \<in> S" by blast
      from trans [OF Cons.prems(1) y this True] sy z show "cmp x z \<le> 0" by blast
    qed
    with True Cons.prems(3) show ?thesis by simp
  next
    case False
    with total [OF Cons.prems(1) y] have yx: "cmp y x \<le> 0" by blast
    have "sorted_wrt (\<lambda>a b. cmp a b \<le> 0) (insert_sorted cmp x ys)"
      using Cons.IH [OF Cons.prems(1) ys sys] .
    with False yx sy show ?thesis by (simp add: set_insert_sorted)
  qed
qed

lemma sorted_js_sort:
  assumes total: "\<And>a b. a \<in> S \<Longrightarrow> b \<in> S \<Longrightarrow> cmp a b \<le> 0 \<or> cmp b a \<le> 0"
    and trans: "\<And>a b c. a \<in> S \<Longrightarrow> b \<in> S \<Longrightarrow> c \<in> S \<Longrightarrow> cmp a b \<le> 0 \<Longrightarrow> cmp b c \<le> 0 \<Longrightarrow> cmp a c \<le> 0"
  shows "set xs \<subseteq> S \<Longrightarrow> sorted_wrt (\<lambda>a b. cmp a b \<le> 0) (js_sort cmp xs)"
proof (induction xs)
  case Nil
  show ?case by (simp add: js_sort_def)
next
  case (Cons x xs)
  have x: "x \<in> S" and xs: "set xs \<subseteq> S" using Cons.prems by simp_all
  have s: "set (js_sort cmp xs) \<subseteq> S" using xs by (simp add: set_js_sort)
  have "js_sort cmp (x # xs) = insert_sorted cmp x (js_sort cmp xs)"
    by (simp add: js_sort_def)
  with sorted_insert_sorted [of S cmp x "js_sort cmp xs", OF total trans x s Cons.IH [OF xs]]
  show ?case by simp
qed


lemma compareFn_reversed: "compareFn h k True a b = - compareFn h k False a b"
  by (simp add: compareFn_def Let_def)

lemma compareFn_ascending:
  assumes t: "totally_ordered h vs" and a: "get a k \<in> set vs" and b: "get b k \<in> set vs"
  shows "(compareFn h k False a b \<le> 0) = (js_lt h (get a k) (get b k) \<or> strict_eq (get a k) (get b k))"
  using total_cases [OF t a b] by (auto simp: compareFn_def Let_def js_gt_def)

lemma compareFn_descending:
  assumes t: "totally_ordered h vs" and a: "get a k \<in> set vs" and b: "get b k \<in> set vs"
  shows "(compareFn h k True a b \<le> 0) = (js_gt h (get a k) (get b k) \<or> strict_eq (get a k) (get b k))"
  using total_cases [OF t a b] by (auto simp: compareFn_def Let_def js_gt_def)

lemma total_le_trans:
  assumes t: "totally_ordered h vs" and a: "a \<in> set vs" and b: "b \<in> set vs" and c: "c \<in> set vs"
    and ab: "js_lt h a b \<or> strict_eq a b" and bc: "js_lt h b c \<or> strict_eq b c"
  shows "js_lt h a c \<or> strict_eq a c"
proof (cases "js_lt h a b")
  case lab: True
  show ?thesis
  proof (cases "js_lt h b c")
    case True
    with lab total_trans [OF t a b c] show ?thesis by blast
  next
    case False
    with bc have e: "strict_eq b c" by blast
    from total_negtrans [OF t a c b lab] have "js_lt h a c \<or> js_lt h c b" .
    moreover from total_cases [OF t b c] e have "\<not> js_lt h c b" by blast
    ultimately show ?thesis by blast
  qed
next
  case False
  with ab have e: "strict_eq a b" by blast
  show ?thesis
  proof (cases "js_lt h b c")
    case True
    from total_negtrans [OF t b a c True] have "js_lt h b a \<or> js_lt h a c" .
    moreover from total_cases [OF t a b] e have "\<not> js_lt h b a" by blast
    ultimately show ?thesis by blast
  next
    case False
    with bc have "strict_eq b c" by blast
    with e strict_eq_trans [of a b c] show ?thesis by blast
  qed
qed

lemma orderBy_ascending_sorted:
  assumes t: "totally_ordered h (map (\<lambda>x. get x k) xs)"
  shows "sorted_wrt (\<lambda>u v. js_lt h u v \<or> strict_eq u v)
           (map (\<lambda>x. get x k) (js_sort (compareFn h k False) xs))"
proof -
  let ?vs = "map (\<lambda>x. get x k) xs"
  have v: "get a k \<in> set ?vs" if "a \<in> set xs" for a using that by simp
  have total: "compareFn h k False a b \<le> 0 \<or> compareFn h k False b a \<le> 0"
    if "a \<in> set xs" "b \<in> set xs" for a b
    using total_cases [OF t v [OF that(1)] v [OF that(2)]]
    by (simp add: compareFn_ascending [OF t v [OF that(1)] v [OF that(2)]]
        compareFn_ascending [OF t v [OF that(2)] v [OF that(1)]]) blast
  have trans: "compareFn h k False a c \<le> 0"
    if "a \<in> set xs" "b \<in> set xs" "c \<in> set xs"
      "compareFn h k False a b \<le> 0" "compareFn h k False b c \<le> 0" for a b c
    using total_le_trans [OF t v [OF that(1)] v [OF that(2)] v [OF that(3)]] that(4,5)
    by (simp add: compareFn_ascending [OF t v [OF that(1)] v [OF that(2)]]
        compareFn_ascending [OF t v [OF that(2)] v [OF that(3)]]
        compareFn_ascending [OF t v [OF that(1)] v [OF that(3)]])
  have sub: "set xs \<subseteq> set xs" by simp
  have s: "sorted_wrt (\<lambda>a b. compareFn h k False a b \<le> 0) (js_sort (compareFn h k False) xs)"
    using sorted_js_sort [of "set xs" "compareFn h k False" xs, OF total trans sub] .
  have "sorted_wrt (\<lambda>a b. js_lt h (get a k) (get b k) \<or> strict_eq (get a k) (get b k))
          (js_sort (compareFn h k False) xs)"
  proof (rule sorted_wrt_mono_rel [OF _ s])
    fix a b
    assume "a \<in> set (js_sort (compareFn h k False) xs)" "b \<in> set (js_sort (compareFn h k False) xs)"
      and c: "compareFn h k False a b \<le> 0"
    then have "a \<in> set xs" "b \<in> set xs" by (simp_all add: set_js_sort)
    with c show "js_lt h (get a k) (get b k) \<or> strict_eq (get a k) (get b k)"
      using compareFn_ascending [OF t v v] by blast
  qed
  then show ?thesis by (simp add: sorted_wrt_map)
qed

lemma orderBy_descending_sorted:
  assumes t: "totally_ordered h (map (\<lambda>x. get x k) xs)"
  shows "sorted_wrt (\<lambda>u v. js_gt h u v \<or> strict_eq u v)
           (map (\<lambda>x. get x k) (js_sort (compareFn h k True) xs))"
proof -
  let ?vs = "map (\<lambda>x. get x k) xs"
  have v: "get a k \<in> set ?vs" if "a \<in> set xs" for a using that by simp
  have d: "(compareFn h k True a b \<le> 0) = (compareFn h k False b a \<le> 0)"
    if "a \<in> set xs" "b \<in> set xs" for a b
    unfolding compareFn_descending [OF t v [OF that(1)] v [OF that(2)]]
      compareFn_ascending [OF t v [OF that(2)] v [OF that(1)]] js_gt_def
    using strict_eq_sym [of "get a k" "get b k"] by simp
  have total: "compareFn h k True a b \<le> 0 \<or> compareFn h k True b a \<le> 0"
    if "a \<in> set xs" "b \<in> set xs" for a b
    using total_cases [OF t v [OF that(1)] v [OF that(2)]]
    by (simp add: compareFn_descending [OF t v [OF that(1)] v [OF that(2)]]
        compareFn_descending [OF t v [OF that(2)] v [OF that(1)]] js_gt_def) blast
  have trans: "compareFn h k True a c \<le> 0"
    if "a \<in> set xs" "b \<in> set xs" "c \<in> set xs"
      "compareFn h k True a b \<le> 0" "compareFn h k True b c \<le> 0" for a b c
    using total_le_trans [OF t v [OF that(3)] v [OF that(2)] v [OF that(1)]] that(4,5)
    by (simp add: d [OF that(1) that(2)] d [OF that(2) that(3)] d [OF that(1) that(3)]
        compareFn_ascending [OF t v [OF that(2)] v [OF that(1)]]
        compareFn_ascending [OF t v [OF that(3)] v [OF that(2)]]
        compareFn_ascending [OF t v [OF that(3)] v [OF that(1)]])
  have sub: "set xs \<subseteq> set xs" by simp
  have s: "sorted_wrt (\<lambda>a b. compareFn h k True a b \<le> 0) (js_sort (compareFn h k True) xs)"
    using sorted_js_sort [of "set xs" "compareFn h k True" xs, OF total trans sub] .
  have "sorted_wrt (\<lambda>a b. js_gt h (get a k) (get b k) \<or> strict_eq (get a k) (get b k))
          (js_sort (compareFn h k True) xs)"
  proof (rule sorted_wrt_mono_rel [OF _ s])
    fix a b
    assume "a \<in> set (js_sort (compareFn h k True) xs)" "b \<in> set (js_sort (compareFn h k True) xs)"
      and c: "compareFn h k True a b \<le> 0"
    then have "a \<in> set xs" "b \<in> set xs" by (simp_all add: set_js_sort)
    with c show "js_gt h (get a k) (get b k) \<or> strict_eq (get a k) (get b k)"
      using compareFn_descending [OF t v v] by blast
  qed
  then show ?thesis by (simp add: sorted_wrt_map)
qed



text \<open>The host of the examples conforms.\<close>

lemma example_host_conforms: "conforming_sort example_host"
  by (simp add: conforming_sort_def example_host_def mset_js_sort)

text \<open>
  On totally ordered field values the comparison function of \<open>orderBy\<close> is a consistent
  comparator, so the standard fixes what the host's sort returns.
\<close>

lemma compareFn_consistent:
  assumes t: "totally_ordered h (map (\<lambda>x. get x k) xs)"
  shows "consistent_comparator (compareFn h k d) (set xs)"
proof -
  let ?vs = "map (\<lambda>x. get x k) xs"
  have v: "get a k \<in> set ?vs" if "a \<in> set xs" for a using that by simp
  have zero: "(compareFn h k d a b = 0) = strict_eq (get a k) (get b k)" for a b
    by (simp add: compareFn_def Let_def)
  have neg: "(compareFn h k d a b < 0)
               = (if d then js_gt h (get a k) (get b k) else js_lt h (get a k) (get b k))"
    if "a \<in> set xs" "b \<in> set xs" for a b
    using total_cases [OF t v [OF that(1)] v [OF that(2)]]
    by (auto simp: compareFn_def Let_def js_gt_def)
  have pos: "(compareFn h k d a b > 0)
               = (if d then js_lt h (get a k) (get b k) else js_gt h (get a k) (get b k))"
    if "a \<in> set xs" "b \<in> set xs" for a b
    using total_cases [OF t v [OF that(1)] v [OF that(2)]]
    by (auto simp: compareFn_def Let_def js_gt_def)
  have r: "compareFn h k d a a = 0" if "a \<in> set xs" for a
    using total_cases [OF t v [OF that] v [OF that]] by (auto simp: zero)
  have s: "compareFn h k d b a = 0" if "compareFn h k d a b = 0" for a b
    using that strict_eq_sym [of "get a k" "get b k"] by (simp add: zero)
  have tz: "compareFn h k d a c = 0" if "compareFn h k d a b = 0" "compareFn h k d b c = 0" for a b c
    using that strict_eq_trans [of "get a k" "get b k" "get c k"] by (simp add: zero)
  have tn: "compareFn h k d a c < 0"
    if "a \<in> set xs" "b \<in> set xs" "c \<in> set xs" "compareFn h k d a b < 0" "compareFn h k d b c < 0"
    for a b c
    using that(4,5)
      total_trans [OF t v [OF that(1)] v [OF that(2)] v [OF that(3)]]
      total_trans [OF t v [OF that(3)] v [OF that(2)] v [OF that(1)]]
    by (simp add: neg [OF that(1) that(2)] neg [OF that(2) that(3)] neg [OF that(1) that(3)]
        js_gt_def split: if_splits)
  have tp: "compareFn h k d a c > 0"
    if "a \<in> set xs" "b \<in> set xs" "c \<in> set xs" "compareFn h k d a b > 0" "compareFn h k d b c > 0"
    for a b c
    using that(4,5)
      total_trans [OF t v [OF that(1)] v [OF that(2)] v [OF that(3)]]
      total_trans [OF t v [OF that(3)] v [OF that(2)] v [OF that(1)]]
    by (simp add: pos [OF that(1) that(2)] pos [OF that(2) that(3)] pos [OF that(1) that(3)]
        js_gt_def split: if_splits)
  show ?thesis
    unfolding consistent_comparator_def using r s tz tn tp by blast
qed

text \<open>The stable sorted order keeps elements that compare equal in their order.\<close>

lemma filter_insert_sorted:
  assumes "\<And>y. y \<in> set ys \<Longrightarrow> P x \<Longrightarrow> P y \<Longrightarrow> cmp x y \<le> 0"
  shows "filter P (insert_sorted cmp x ys) = filter P (x # ys)"
  using assms
proof (induction ys)
  case Nil
  show ?case by simp
next
  case (Cons y ys)
  show ?case
  proof (cases "cmp x y \<le> 0")
    case True
    then show ?thesis by simp
  next
    case False
    have "\<not> (P x \<and> P y)" using Cons.prems [of y] False by auto
    moreover have "filter P (insert_sorted cmp x ys) = filter P (x # ys)"
      using Cons.IH Cons.prems by simp
    ultimately show ?thesis using False by auto
  qed
qed

lemma filter_js_sort:
  assumes "\<And>x y. x \<in> set xs \<Longrightarrow> y \<in> set xs \<Longrightarrow> P x \<Longrightarrow> P y \<Longrightarrow> cmp x y \<le> 0"
  shows "filter P (js_sort cmp xs) = filter P xs"
  using assms
proof (induction xs)
  case Nil
  show ?case by (simp add: js_sort_def)
next
  case (Cons x xs)
  have j: "js_sort cmp (x # xs) = insert_sorted cmp x (js_sort cmp xs)"
    by (simp add: js_sort_def)
  have "filter P (insert_sorted cmp x (js_sort cmp xs)) = filter P (x # js_sort cmp xs)"
  proof (rule filter_insert_sorted)
    fix y
    assume "y \<in> set (js_sort cmp xs)" "P x" "P y"
    then show "cmp x y \<le> 0" using Cons.prems [of x y] by (simp add: set_js_sort)
  qed
  moreover have "filter P (js_sort cmp xs) = filter P xs"
    using Cons.IH Cons.prems by simp
  ultimately show ?case unfolding j by simp
qed

lemma js_sort_keeps_equal_keys_in_order:
  "filter (\<lambda>x. strict_eq (get x k) v) (js_sort (compareFn h k d) xs)
     = filter (\<lambda>x. strict_eq (get x k) v) xs"
proof (rule filter_js_sort)
  fix x y
  assume "strict_eq (get x k) v" "strict_eq (get y k) v"
  then have "strict_eq (get x k) (get y k)"
    using strict_eq_sym [of "get y k" v] strict_eq_trans [of "get x k" v "get y k"] by blast
  then show "compareFn h k d x y \<le> 0" by (simp add: compareFn_def Let_def)
qed

lemma orderBy_items:
  assumes "conforming_sort h" and "totally_ordered h (map (\<lambda>x. get x k) (items this))"
  shows "items (returned (orderBy h k d this)) = js_sort (compareFn h k d) (items this)"
  using assms compareFn_consistent [of h k "items this" d]
  by (simp add: orderBy_def new_QueryBuilder_def slice_whole conforming_sort_def)

lemma orderBy_permutes:
  assumes "conforming_sort h"
  shows "mset (items (returned (orderBy h k d this))) = mset (items this)"
  using assms by (simp add: orderBy_def new_QueryBuilder_def slice_whole conforming_sort_def)


lemma two_item_permutations:
  assumes "mset ys = mset [a, b]"
  shows "ys = [a, b] \<or> ys = [b, a]"
proof -
  from assms have "length ys = 2" using mset_eq_length [of ys "[a, b]"] by simp
  then obtain x y where ys: "ys = [x, y]"
    by (cases ys; simp) (metis length_0_conv length_Suc_conv)
  with assms have "{#x, y#} = {#a, b#}" by simp
  then have "(x = a \<and> y = b) \<or> (x = b \<and> y = a)"
    by (auto simp: add_eq_conv_ex)
  with ys show ?thesis by blast
qed

text \<open>
  C7, as stated, fails. It promises non-decreasing key values for every input. A record
  without the field has the value \<open>undefined\<close>, which is neither \<open><\<close>, \<open>>\<close> nor \<open>===\<close> a
  number (and so is \<open>NaN\<close>). Of the two records below one has no age and the other is 25:
  the array \<open>orderBy('age')\<close> returns is not non-decreasing, and no arrangement of the two
  records is, whatever the host's sort does.
\<close>

theorem orderBy_does_not_sort_when_a_field_is_missing:
  "\<not> sorted_wrt (\<lambda>u v. js_lt example_host u v \<or> strict_eq u v)
       (map (\<lambda>x. get x ''age'')
          (toArray (returned (orderBy example_host ''age'' False (new_QueryBuilder [unrated_a, bob])))))
   \<and> \<not> (\<exists>ys. mset ys = mset [unrated_a, bob]
            \<and> sorted_wrt (\<lambda>u v. js_lt example_host u v \<or> strict_eq u v)
                 (map (\<lambda>x. get x ''age'') ys))"
proof -
  have u: "get unrated_a ''age'' = Undefined" "get bob ''age'' = Number (Fin 25)"
    by (simp_all add: get_def unrated_a_def bob_def)
  have n: "\<not> sorted_wrt (\<lambda>u v. js_lt example_host u v \<or> strict_eq u v)
                 (map (\<lambda>x. get x ''age'') ys)"
    if "mset ys = mset [unrated_a, bob]" for ys
    using two_item_permutations [OF that]
    by (auto simp: u js_lt_def num_less_def)
  have "mset (toArray (returned (orderBy example_host ''age'' False (new_QueryBuilder [unrated_a, bob]))))
          = mset [unrated_a, bob]"
    using orderBy_permutes [OF example_host_conforms]
    by (simp add: toArray_def new_QueryBuilder_def)
  from n [OF this] n show ?thesis by blast
qed

text \<open>
  C7, amended. On a host whose sort conforms to the standard, \<open>orderBy(key, descending)\<close>
  returns a permutation of the items. When the values of the field are totally ordered by
  \<open><\<close>, \<open>>\<close> and \<open>===\<close>, the values in the ascending result are non-decreasing (each is
  \<open><\<close> or \<open>===\<close> every later one), the values in the descending result are
  non-increasing, and in both directions the items whose values are \<open>===\<close> keep their
  input order: \<open>descending\<close> reverses each comparison, it does not reverse the ascending
  result. \<open>orderBy('age', true)\<close> on the ages 25, 35, 30 gives 35, 30, 25.
\<close>

theorem orderBy_sorts_totally_ordered_values:
  assumes c: "conforming_sort h"
  shows "mset (toArray (returned (orderBy h k descending this))) = mset (toArray this)
   \<and> (totally_ordered h (map (\<lambda>x. get x k) (toArray this)) \<longrightarrow>
         sorted_wrt (\<lambda>u v. js_lt h u v \<or> strict_eq u v)
           (map (\<lambda>x. get x k) (toArray (returned (orderBy h k False this))))
       \<and> sorted_wrt (\<lambda>u v. js_gt h u v \<or> strict_eq u v)
           (map (\<lambda>x. get x k) (toArray (returned (orderBy h k True this))))
       \<and> filter (\<lambda>x. strict_eq (get x k) v) (toArray (returned (orderBy h k descending this)))
           = filter (\<lambda>x. strict_eq (get x k) v) (toArray this))
   \<and> toArray (returned (orderBy h ''age'' True (new_QueryBuilder [bob, charlie, alice])))
       = [charlie, alice, bob]
   \<and> map (\<lambda>x. get x ''age'') [charlie, alice, bob]
       = [Number (Fin 35), Number (Fin 30), Number (Fin 25)]"
proof -
  have p: "mset (toArray (returned (orderBy h k descending this))) = mset (toArray this)"
    using orderBy_permutes [OF c] by (simp add: toArray_def)
  have s: "sorted_wrt (\<lambda>u v. js_lt h u v \<or> strict_eq u v)
           (map (\<lambda>x. get x k) (toArray (returned (orderBy h k False this))))
       \<and> sorted_wrt (\<lambda>u v. js_gt h u v \<or> strict_eq u v)
           (map (\<lambda>x. get x k) (toArray (returned (orderBy h k True this))))
       \<and> filter (\<lambda>x. strict_eq (get x k) v) (toArray (returned (orderBy h k descending this)))
           = filter (\<lambda>x. strict_eq (get x k) v) (toArray this)"
    if t: "totally_ordered h (map (\<lambda>x. get x k) (toArray this))"
  proof -
    from t have t': "totally_ordered h (map (\<lambda>x. get x k) (items this))"
      by (simp add: toArray_def)
    show ?thesis
      using orderBy_ascending_sorted [OF t'] orderBy_descending_sorted [OF t']
        js_sort_keeps_equal_keys_in_order [of k v h descending "items this"]
      by (simp add: toArray_def orderBy_items [OF c t'])
  qed
  have it: "items (new_QueryBuilder [bob, charlie, alice]) = [bob, charlie, alice]"
    by (simp add: new_QueryBuilder_def)
  have "totally_ordered h (map (\<lambda>x. get x ''age'') (items (new_QueryBuilder [bob, charlie, alice])))"
    unfolding it by (rule people_ages_totally_ordered) simp
  from orderBy_items [OF c this, of True]
  have "toArray (returned (orderBy h ''age'' True (new_QueryBuilder [bob, charlie, alice])))
       = js_sort (compareFn h ''age'' True) [bob, charlie, alice]"
    unfolding it toArray_def .
  also have "\<dots> = [charlie, alice, bob]"
    by (simp add: js_sort_def compareFn_def get_def
        js_gt_def js_lt_def num_less_def num_equal_def alice_def bob_def charlie_def)
  finally have e: "toArray (returned (orderBy h ''age'' True (new_QueryBuilder [bob, charlie, alice])))
       = [charlie, alice, bob]" .
  have g: "map (\<lambda>x. get x ''age'') [charlie, alice, bob]
       = [Number (Fin 35), Number (Fin 30), Number (Fin 25)]"
    by (simp add: get_def alice_def bob_def charlie_def)
  from p s e g show ?thesis by blast
qed

text \<open>
  With a tie (Charlie and Dana are both 35) the descending result has Charlie before Dana,
  as the input has; the ascending result reversed would have Dana first.
\<close>

theorem orderBy_sorts_totally_ordered_values_witness:
  "conforming_sort example_host
   \<and> totally_ordered example_host (map (\<lambda>x. get x ''age'') [charlie, bob, dana, alice])
   \<and> toArray (returned (orderBy example_host ''age'' True (new_QueryBuilder [charlie, bob, dana, alice])))
       = [charlie, dana, alice, bob]
   \<and> toArray (returned (orderBy example_host ''age'' False (new_QueryBuilder [charlie, bob, dana, alice])))
       = [bob, alice, charlie, dana]
   \<and> sorted_wrt (\<lambda>u v. js_gt example_host u v \<or> strict_eq u v)
        (map (\<lambda>x. get x ''age'') [charlie, dana, alice, bob])
   \<and> filter (\<lambda>x. strict_eq (get x ''age'') (Number (Fin 35))) [charlie, dana, alice, bob]
       = filter (\<lambda>x. strict_eq (get x ''age'') (Number (Fin 35))) [charlie, bob, dana, alice]"
proof -
  let ?xs = "[charlie, bob, dana, alice]"
  let ?q = "new_QueryBuilder ?xs"
  have it: "toArray ?q = ?xs" by (simp add: new_QueryBuilder_def toArray_def)
  have t: "totally_ordered example_host (map (\<lambda>x. get x ''age'') (toArray ?q))"
    unfolding it by (rule people_ages_totally_ordered) simp
  have d: "toArray (returned (orderBy example_host ''age'' True ?q)) = [charlie, dana, alice, bob]"
    by (simp add: toArray_def orderBy_def slice_whole example_host_def new_QueryBuilder_def
        js_sort_def compareFn_def get_def
        js_gt_def js_lt_def num_less_def num_equal_def alice_def bob_def charlie_def dana_def)
  have a: "toArray (returned (orderBy example_host ''age'' False ?q)) = [bob, alice, charlie, dana]"
    by (simp add: toArray_def orderBy_def slice_whole example_host_def new_QueryBuilder_def
        js_sort_def compareFn_def get_def
        js_gt_def js_lt_def num_less_def num_equal_def alice_def bob_def charlie_def dana_def)
  from orderBy_sorts_totally_ordered_values
         [OF example_host_conforms, of "''age''" True ?q "Number (Fin 35)"] t
  have "sorted_wrt (\<lambda>u v. js_gt example_host u v \<or> strict_eq u v)
           (map (\<lambda>x. get x ''age'') (toArray (returned (orderBy example_host ''age'' True ?q))))
       \<and> filter (\<lambda>x. strict_eq (get x ''age'') (Number (Fin 35)))
             (toArray (returned (orderBy example_host ''age'' True ?q)))
           = filter (\<lambda>x. strict_eq (get x ''age'') (Number (Fin 35))) (toArray ?q)"
    by blast
  with t d a example_host_conforms show ?thesis unfolding it by simp
qed

section \<open>Grouping by key\<close>

lemma push_item_first:
  "foldl (\<lambda>groups item. push_item groups (f item) item) (g # gs) ys
     = g\<lparr>group := group g @ filter (\<lambda>y. strict_eq (key g) (f y)) ys\<rparr>
         # foldl (\<lambda>groups item. push_item groups (f item) item) gs
             (filter (\<lambda>y. \<not> strict_eq (key g) (f y)) ys)"
proof (induction ys arbitrary: g gs)
  case Nil
  show ?case by simp
next
  case (Cons y ys)
  show ?case
  proof (cases "strict_eq (key g) (f y)")
    case True
    then show ?thesis
      using Cons.IH [of "g\<lparr>group := group g @ [y]\<rparr>" gs] by simp
  next
    case False
    then show ?thesis
      using Cons.IH [of g "push_item gs (f y) y"] by simp
  qed
qed

lemma groupBy_partition_by:
  "toArray (returned (groupBy f this)) = partition_by f (toArray this)"
proof -
  have "foldl (\<lambda>groups item. push_item groups (f item) item) [] xs = partition_by f xs" for xs
  proof (induction f xs rule: partition_by.induct)
    case (1 f)
    show ?case by simp
  next
    case (2 f x xs)
    have "foldl (\<lambda>groups item. push_item groups (f item) item) [] (x # xs)
            = foldl (\<lambda>groups item. push_item groups (f item) item) [\<lparr>key = f x, group = [x]\<rparr>] xs"
      by simp
    also have "\<dots> = \<lparr>key = f x, group = [x] @ filter (\<lambda>y. strict_eq (f x) (f y)) xs\<rparr>
         # foldl (\<lambda>groups item. push_item groups (f item) item) []
             (filter (\<lambda>y. \<not> strict_eq (f x) (f y)) xs)"
      by (simp add: push_item_first)
    finally show ?case using "2.IH" by simp
  qed
  then show ?thesis by (simp add: groupBy_def toArray_def new_QueryBuilder_def)
qed

lemma partition_by_mset: "mset (concat (map group (partition_by f xs))) = mset xs"
  by (induction f xs rule: partition_by.induct) simp_all

lemma partition_by_keys: "map key (partition_by f xs) = first_seen (map f xs)"
  by (induction f xs rule: partition_by.induct) (simp_all add: filter_map comp_def)

lemma partition_by_groups:
  "g \<in> set (partition_by f xs) \<Longrightarrow>
     group g \<noteq> [] \<and> subseq (group g) xs \<and> key g = f (hd (group g))
     \<and> (\<forall>x \<in> set (tl (group g)). strict_eq (key g) (f x))"
proof (induction f xs rule: partition_by.induct)
  case (1 f)
  then show ?case by simp
next
  case (2 f x xs)
  show ?case
  proof (cases "g = \<lparr>key = f x, group = x # filter (\<lambda>y. strict_eq (f x) (f y)) xs\<rparr>")
    case True
    then show ?thesis by simp
  next
    case False
    with "2.prems" have "g \<in> set (partition_by f (filter (\<lambda>y. \<not> strict_eq (f x) (f y)) xs))"
      by simp
    from "2.IH" [OF this]
    have a: "group g \<noteq> []" "subseq (group g) (filter (\<lambda>y. \<not> strict_eq (f x) (f y)) xs)"
      "key g = f (hd (group g))" "\<forall>x \<in> set (tl (group g)). strict_eq (key g) (f x)"
      by blast+
    have "subseq (filter (\<lambda>y. \<not> strict_eq (f x) (f y)) xs) (x # xs)"
      by (rule list_emb_Cons) (rule subseq_filter_left)
    with a(2) have "subseq (group g) (x # xs)" by (rule subseq_order.trans)
    with a show ?thesis by blast
  qed
qed


text \<open>
  C2. For every sequence and key selector, the array of \<open>groupBy(f)\<close> is an exact
  partition of the items: the groups' items, concatenated in group order, are a permutation
  of the sequence (every item is in exactly one group); the keys of the groups are the
  keys of the sequence in first-seen order; every group is a subsequence of the sequence
  (it keeps the source order), is keyed by its first item's key, and its other items have
  a key \<open>===\<close> to that one.
\<close>

theorem groupBy_partitions_the_sequence:
  "mset (concat (map group (toArray (returned (groupBy f this))))) = mset (toArray this)
   \<and> map key (toArray (returned (groupBy f this))) = first_seen (map f (toArray this))
   \<and> (\<forall>g \<in> set (toArray (returned (groupBy f this))).
          group g \<noteq> [] \<and> subseq (group g) (toArray this) \<and> key g = f (hd (group g))
          \<and> (\<forall>x \<in> set (tl (group g)). strict_eq (key g) (f x)))
   \<and> toArray (returned (groupBy f this)) = partition_by f (toArray this)"
  unfolding groupBy_partition_by
  using partition_by_mset [of f "toArray this"] partition_by_keys [of f "toArray this"]
    partition_by_groups [of _ f "toArray this"]
  by blast

text \<open>The repository's own test: the three people grouped by department.\<close>

theorem groupBy_partitions_the_sequence_witness:
  "toArray (returned (groupBy (\<lambda>x. get x ''departmentId'') (new_QueryBuilder [alice, bob, charlie])))
     = [\<lparr>key = Number (Fin 1), group = [alice, charlie]\<rparr>, \<lparr>key = Number (Fin 2), group = [bob]\<rparr>]
   \<and> first_seen (map (\<lambda>x. get x ''departmentId'') [alice, bob, charlie])
       = [Number (Fin 1), Number (Fin 2)]
   \<and> subseq [alice, charlie] [alice, bob, charlie]"
proof -
  let ?f = "\<lambda>x. get x ''departmentId''"
  let ?q = "new_QueryBuilder [alice, bob, charlie]"
  have it: "toArray ?q = [alice, bob, charlie]" by (simp add: toArray_def new_QueryBuilder_def)
  have g: "toArray (returned (groupBy ?f ?q))
     = [\<lparr>key = Number (Fin 1), group = [alice, charlie]\<rparr>, \<lparr>key = Number (Fin 2), group = [bob]\<rparr>]"
    by (simp add: groupBy_def toArray_def new_QueryBuilder_def get_def num_equal_def
        alice_def bob_def charlie_def)
  from groupBy_partitions_the_sequence [of ?f ?q]
  have "map key (toArray (returned (groupBy ?f ?q))) = first_seen (map ?f (toArray ?q))"
    and "\<forall>g \<in> set (toArray (returned (groupBy ?f ?q))). subseq (group g) (toArray ?q)"
    by blast+
  then have "first_seen (map ?f [alice, bob, charlie]) = [Number (Fin 1), Number (Fin 2)]"
    and "subseq [alice, charlie] [alice, bob, charlie]"
    unfolding g it by simp_all
  with g show ?thesis by blast
qed

section \<open>Grouping through a map\<close>

lemma strict_eq_canonical_key [simp]:
  "strict_eq a (canonical_key b) = strict_eq a b"
  "strict_eq (canonical_key a) b = strict_eq a b"
  by (cases a; cases b; auto simp: canonical_key_def num_equal_def)+

lemma canonical_key_NaN [simp]: "(canonical_key k = Number NaN) = (k = Number NaN)"
  by (simp add: canonical_key_def)

lemma same_value_zero_strict: "k \<noteq> Number NaN \<Longrightarrow> same_value_zero a k = strict_eq a k"
  by (simp add: same_value_zero_def)

lemma push_item_simulates:
  assumes k: "k \<noteq> Number NaN"
  shows "map (\<lambda>g. (canonical_key (key g), group g)) (push_item gs k x)
           = map_set (map (\<lambda>g. (canonical_key (key g), group g)) gs) k
               ((case map_get (map (\<lambda>g. (canonical_key (key g), group g)) gs) k of
                   None \<Rightarrow> [] | Some grp \<Rightarrow> grp) @ [x])"
proof (induction gs)
  case Nil
  show ?case by (simp add: map_set_def)
next
  case (Cons g gs)
  have ck: "canonical_key k \<noteq> Number NaN" using k by simp
  show ?case
  proof (cases "strict_eq (key g) k")
    case True
    then show ?thesis
      by (simp add: map_set_def same_value_zero_strict [OF k] same_value_zero_strict [OF ck])
  next
    case False
    then show ?thesis
      using Cons.IH
      by (simp add: map_set_def same_value_zero_strict [OF k] same_value_zero_strict [OF ck])
  qed
qed

lemma toGroup_map_simulates:
  "\<forall>x \<in> set xs. f x \<noteq> Number NaN \<Longrightarrow>
     foldl (\<lambda>m item.
              let k = f item; grp = (case map_get m k of None \<Rightarrow> [] | Some g \<Rightarrow> g)
              in map_set m k (grp @ [item]))
           (map (\<lambda>g. (canonical_key (key g), group g)) gs) xs
       = map (\<lambda>g. (canonical_key (key g), group g))
           (foldl (\<lambda>groups item. push_item groups (f item) item) gs xs)"
proof (induction xs arbitrary: gs)
  case Nil
  show ?case by simp
next
  case (Cons x xs)
  have k: "f x \<noteq> Number NaN" and r: "\<forall>x \<in> set xs. f x \<noteq> Number NaN"
    using Cons.prems by simp_all
  show ?case
    using Cons.IH [OF r, of "push_item gs (f x) x"]
    by (simp add: Let_def push_item_simulates [OF k])
qed


text \<open>
  C3, as stated, fails. \<open>groupBy\<close> finds a group with \<open>===\<close>, under which \<open>NaN\<close> is not
  equal to itself; \<open>toGroup\<close> keeps its groups in a \<open>Map\<close>, under whose key equality it
  is. Two items whose key is \<open>NaN\<close> are two groups for \<open>groupBy\<close> and one group for
  \<open>toGroup\<close>, so the records of \<open>toGroup\<close> are not those of \<open>groupBy\<close> with the group
  field replaced.
\<close>

theorem toGroup_differs_from_groupBy_on_NaN_keys:
  "toGroup (\<lambda>x. get x ''rating'') (\<lambda>k xs. xs) (new_QueryBuilder [unrated_a, unrated_b])
     = Fulfilled [\<lparr>key = Number NaN, group = [unrated_a, unrated_b]\<rparr>]
   \<and> toArray (returned (groupBy (\<lambda>x. get x ''rating'') (new_QueryBuilder [unrated_a, unrated_b])))
     = [\<lparr>key = Number NaN, group = [unrated_a]\<rparr>, \<lparr>key = Number NaN, group = [unrated_b]\<rparr>]
   \<and> toGroup (\<lambda>x. get x ''rating'') (\<lambda>k xs. xs) (new_QueryBuilder [unrated_a, unrated_b])
     \<noteq> Fulfilled (map (\<lambda>r. \<lparr>key = key r, group = (\<lambda>k xs. xs) (key r) (group r)\<rparr>)
          (toArray (returned (groupBy (\<lambda>x. get x ''rating'')
             (new_QueryBuilder [unrated_a, unrated_b])))))"
  by (simp add: toGroup_def groupBy_def toArray_def new_QueryBuilder_def get_def map_set_def
      canonical_key_def same_value_zero_def num_equal_def unrated_a_def unrated_b_def Let_def)

text \<open>
  A key \<open>-0\<close> is kept as it is by \<open>groupBy\<close> and stored as \<open>+0\<close> by \<open>toGroup\<close>.
\<close>

lemma toGroup_stores_negative_zero_as_zero:
  "toGroup (\<lambda>x. get x ''balance'') (\<lambda>k xs. xs) (new_QueryBuilder [settled])
     = Fulfilled [\<lparr>key = Number (Fin 0), group = [settled]\<rparr>]
   \<and> toArray (returned (groupBy (\<lambda>x. get x ''balance'') (new_QueryBuilder [settled])))
     = [\<lparr>key = Number NegZero, group = [settled]\<rparr>]"
  by (simp add: toGroup_def groupBy_def toArray_def new_QueryBuilder_def get_def map_set_def
      canonical_key_def settled_def Let_def)

text \<open>
  C3, amended. For every sequence and every key selector that never returns \<open>NaN\<close>,
  \<open>toGroup(f, g)\<close> is fulfilled with the records of \<open>groupBy(f)\<close>, in the same order and
  with the same items in the same order in each group, where each record's group field is
  \<open>g(key, items)\<close> and a key \<open>-0\<close> is stored (and passed to \<open>g\<close>) as \<open>+0\<close>, as the
  \<open>Map\<close> stores it.
\<close>

theorem toGroup_groups_as_groupBy:
  assumes "\<forall>x \<in> set (toArray this). f x \<noteq> Number NaN"
  shows "toGroup f groupSelector this
           = Fulfilled (map (\<lambda>r. \<lparr>key = canonical_key (key r),
                                   group = groupSelector (canonical_key (key r)) (group r)\<rparr>)
                            (toArray (returned (groupBy f this))))"
proof -
  have "foldl (\<lambda>m item.
              let k = f item; grp = (case map_get m k of None \<Rightarrow> [] | Some g \<Rightarrow> g)
              in map_set m k (grp @ [item]))
           [] (items this)
       = map (\<lambda>g. (canonical_key (key g), group g))
           (foldl (\<lambda>groups item. push_item groups (f item) item) [] (items this))"
    using toGroup_map_simulates [of "items this" f "[]"] assms by (simp add: toArray_def)
  then show ?thesis
    by (simp add: toGroup_def groupBy_def toArray_def new_QueryBuilder_def comp_def)
qed

text \<open>The repository's own test of \<open>toGroup\<close>, the payload being the pair of key and users.\<close>

theorem toGroup_groups_as_groupBy_witness:
  "list_all (\<lambda>x. get x ''departmentId'' \<noteq> Number NaN) [alice, bob, charlie]
   \<and> toGroup (\<lambda>x. get x ''departmentId'') (\<lambda>k users. (k, users)) (new_QueryBuilder [alice, bob, charlie])
       = Fulfilled [\<lparr>key = Number (Fin 1), group = (Number (Fin 1), [alice, charlie])\<rparr>,
                    \<lparr>key = Number (Fin 2), group = (Number (Fin 2), [bob])\<rparr>]"
proof -
  let ?f = "\<lambda>x. get x ''departmentId''"
  let ?q = "new_QueryBuilder [alice, bob, charlie]"
  have it: "toArray ?q = [alice, bob, charlie]" by (simp add: toArray_def new_QueryBuilder_def)
  have n: "\<forall>x \<in> set [alice, bob, charlie]. get x ''departmentId'' \<noteq> Number NaN"
    by (simp add: get_def alice_def bob_def charlie_def)
  have g: "toArray (returned (groupBy ?f ?q))
     = [\<lparr>key = Number (Fin 1), group = [alice, charlie]\<rparr>, \<lparr>key = Number (Fin 2), group = [bob]\<rparr>]"
    by (simp add: groupBy_def toArray_def new_QueryBuilder_def get_def num_equal_def
        alice_def bob_def charlie_def)
  from n have "\<forall>x \<in> set (toArray ?q). ?f x \<noteq> Number NaN" unfolding it .
  from toGroup_groups_as_groupBy [OF this, of "\<lambda>k users. (k, users)"]
  have "toGroup ?f (\<lambda>k users. (k, users)) ?q
       = Fulfilled [\<lparr>key = Number (Fin 1), group = (Number (Fin 1), [alice, charlie])\<rparr>,
                    \<lparr>key = Number (Fin 2), group = (Number (Fin 2), [bob])\<rparr>]"
    unfolding g by (simp add: canonical_key_def)
  with n show ?thesis by simp
qed

section \<open>Joining\<close>

lemma same_value_zero_sym: "same_value_zero a b = same_value_zero b a"
  using strict_eq_sym [of a b] by (auto simp: same_value_zero_def)

lemma same_value_zero_trans:
  "same_value_zero a b \<Longrightarrow> same_value_zero b c \<Longrightarrow> same_value_zero a c"
proof -
  assume ab: "same_value_zero a b" and bc: "same_value_zero b c"
  have n: "\<not> strict_eq (Number NaN) x" "\<not> strict_eq x (Number NaN)" for x
    by (cases x; simp add: num_equal_def)+
  from ab bc n strict_eq_trans [of a b c] show ?thesis
    by (auto simp: same_value_zero_def)
qed

lemma same_value_zero_canonical_key [simp]:
  "same_value_zero (canonical_key a) b = same_value_zero a b"
  by (auto simp: same_value_zero_def canonical_key_def num_equal_def split: if_splits)
     (cases b; simp add: num_equal_def)+

lemma map_get_map_put:
  "map_get (map_put m a v) k = (if same_value_zero a k then Some v else map_get m k)"
proof (induction m)
  case Nil
  show ?case by simp
next
  case (Cons e m)
  obtain k' v' where e: "e = (k', v')" by (cases e)
  show ?case
  proof (cases "same_value_zero k' a")
    case True
    have "same_value_zero k' k = same_value_zero a k"
      using True same_value_zero_trans [of k' a k] same_value_zero_trans [of a k' k]
        same_value_zero_sym [of k' a] by blast
    with True e show ?thesis by simp
  next
    case False
    have "\<not> (same_value_zero k' k \<and> same_value_zero a k)"
      using False same_value_zero_trans [of k' k a] same_value_zero_sym [of a k] by blast
    with False e Cons.IH show ?thesis by auto
  qed
qed

lemma map_get_map_set:
  "map_get (map_set m a v) k = (if same_value_zero a k then Some v else map_get m k)"
  by (simp add: map_set_def map_get_map_put)

lemma last_with_key_snoc:
  "last_with_key g k (others @ [u])
     = (if same_value_zero (g u) k then Some u else last_with_key g k others)"
  by (simp add: last_with_key_def Let_def)

text \<open>
  The lookup that \<open>join\<close> builds gives, for a key, the last other-item with that key
  (under the key equality of \<open>Map\<close>), whatever the other-items are.
\<close>

lemma lookup_last_write_wins:
  "map_get (foldl (\<lambda>m item. map_set m (g item) item) [] others) k = last_with_key g k others"
proof (induction others rule: rev_induct)
  case Nil
  show ?case by (simp add: last_with_key_def)
next
  case (snoc u others)
  then show ?case by (simp add: map_get_map_set last_with_key_snoc)
qed

text \<open>
  What \<open>join\<close> emits: for each left item in order, the result for the last other-item
  with its key, when there is one, when that other-item is truthy and when the result is
  not \<open>undefined\<close>.
\<close>

lemma join_items:
  "toArray (returned (join (Array others) f g r this))
     = concat (map (\<lambda>item. case last_with_key g (f item) others of
                              None \<Rightarrow> []
                            | Some u \<Rightarrow> if truthy u \<and> r item u \<noteq> Undefined then [r item u] else [])
                   (toArray this))"
proof -
  have u: "strict_eq v Undefined = (v = Undefined)" for v by (cases v) simp_all
  have "filter (\<lambda>item. \<not> strict_eq item Undefined)
          (map (\<lambda>item. let otherItem = (case last_with_key g (f item) others of
                                          None \<Rightarrow> Undefined | Some v \<Rightarrow> v)
                        in if truthy otherItem then r item otherItem else Undefined) xs)
        = concat (map (\<lambda>item. case last_with_key g (f item) others of
                              None \<Rightarrow> []
                            | Some u \<Rightarrow> if truthy u \<and> r item u \<noteq> Undefined then [r item u] else [])
                   xs)" for xs
    by (induction xs) (auto simp: u Let_def split: option.splits)
  then show ?thesis
    by (simp add: join_def toArray_def new_QueryBuilder_def lookup_last_write_wins)
qed


lemma join_Query: "join (Query q) f g r this = join (Array (items q)) f g r this"
  by (simp add: join_def)

lemma last_with_key_member:
  "last_with_key g k others = Some u \<Longrightarrow> u \<in> set others \<and> same_value_zero (g u) k"
proof -
  assume a: "last_with_key g k others = Some u"
  let ?ms = "filter (\<lambda>u. same_value_zero (g u) k) others"
  from a have ne: "?ms \<noteq> []" and u: "u = last ?ms"
    by (auto simp: last_with_key_def Let_def split: if_splits)
  from ne have "last ?ms \<in> set ?ms" by (rule last_in_set)
  with u have "u \<in> set ?ms" by simp
  then show ?thesis by simp
qed

text \<open>
  When every other-item is truthy (every object is) and the result selector does not
  return \<open>undefined\<close>, a left item is emitted exactly when its key is in the lookup.
\<close>

lemma join_emits_the_last_match_of_each_key:
  assumes t: "\<forall>u \<in> set others. truthy u"
    and d: "\<forall>x \<in> set (toArray this). \<forall>u \<in> set others. r x u \<noteq> Undefined"
  shows "toArray (returned (join (Array others) f g r this))
     = concat (map (\<lambda>item. case last_with_key g (f item) others of
                              None \<Rightarrow> [] | Some u \<Rightarrow> [r item u])
                   (toArray this))"
proof -
  have "(case last_with_key g (f item) others of
           None \<Rightarrow> []
         | Some u \<Rightarrow> if truthy u \<and> r item u \<noteq> Undefined then [r item u] else [])
        = (case last_with_key g (f item) others of None \<Rightarrow> [] | Some u \<Rightarrow> [r item u])"
    if "item \<in> set (toArray this)" for item
    using t d that last_with_key_member [of g "f item" others]
    by (auto split: option.splits)
  then show ?thesis unfolding join_items by (simp cong: map_cong)
qed

text \<open>
  Two departments have the id 1: the later one wins. Frank's department matches none and
  Frank is dropped; the others keep their order.
\<close>

lemma join_people_with_departments:
  "toArray (returned (join (Array [hr, engineering, people_dept])
       (\<lambda>person. get person ''departmentId'') (property ''id'')
       (\<lambda>person department. property ''name'' department)
       (new_QueryBuilder [alice, frank, bob, charlie])))
     = [Str ''People'', Str ''Engineering'', Str ''People'']"
  by (simp add: join_def toArray_def new_QueryBuilder_def map_set_def canonical_key_def
      same_value_zero_def num_equal_def get_def property_def hr_def engineering_def people_dept_def
      alice_def bob_def charlie_def frank_def Let_def)

text \<open>
  C1 says that a left item is emitted exactly when its key is in the lookup. The code
  tests the matched other-item itself (\<open>otherItem ? ... : undefined\<close>), not its presence.
  Joined with the plain numbers 0, 1, 2 as other-items, Frank's key 0 is in the lookup,
  with the other-item 0, and Frank is dropped all the same: only Alice and Bob are emitted.
\<close>

theorem join_drops_a_match_with_a_falsy_item:
  "map_get (foldl (\<lambda>m item. map_set m ((\<lambda>d. d) item) item) []
              [Number (Fin 0), Number (Fin 1), Number (Fin 2)])
           (get frank ''departmentId'')
     = Some (Number (Fin 0))
   \<and> toArray (returned (join (Array [Number (Fin 0), Number (Fin 1), Number (Fin 2)])
         (\<lambda>person. get person ''departmentId'') (\<lambda>d. d)
         (\<lambda>person d. get person ''name'')
         (new_QueryBuilder [frank, alice, bob])))
       = [Str ''Alice'', Str ''Bob'']"
  by (simp add: join_def toArray_def new_QueryBuilder_def map_set_def canonical_key_def
      same_value_zero_def num_equal_def get_def alice_def bob_def frank_def Let_def)

text \<open>
  Likewise a result that is \<open>undefined\<close> is removed by the final \<open>filter\<close>, although
  the key was found.
\<close>

lemma join_drops_an_undefined_result:
  "map_get (foldl (\<lambda>m item. map_set m (property ''id'' item) item) [] [hr, engineering])
           (get alice ''departmentId'')
     = Some hr
   \<and> toArray (returned (join (Array [hr, engineering])
         (\<lambda>person. get person ''departmentId'') (property ''id'')
         (\<lambda>person department. property ''manager'' department)
         (new_QueryBuilder [alice, bob])))
       = []"
  by (simp add: join_def toArray_def new_QueryBuilder_def map_set_def canonical_key_def
      same_value_zero_def num_equal_def get_def property_def hr_def engineering_def
      alice_def bob_def Let_def)

end
